theory Spec2Isabelle
  imports Main
begin

section \<open>JavaScript values\<close>

text \<open>
  The values the two duplicate-check controllers (\<^verbatim>\<open>woonstadDuplicateCheck.js\<close> and
  \<^verbatim>\<open>woonstadBussDuplicateCheck.js\<close>) receive from Apex and from the Flow runtime.
  An object is the list of its own enumerable properties in the order \<^verbatim>\<open>for (k in obj)\<close>
  visits them. Strings are lists of 8-bit characters (the Latin-1 range of code units).
\<close>

datatype jsval =
    JUndefined
  | JNull
  | JBool bool
  | JNum int
  | JStr string
  | JArr "jsval list"
  | JObj "(string \<times> jsval) list"

datatype jserror = TypeError

text \<open>\<^verbatim>\<open>Array.isArray(v)\<close>\<close>

fun isArray :: "jsval \<Rightarrow> bool" where
  "isArray (JArr xs) = True"
| "isArray v = False"

text \<open>Truthiness, as \<^verbatim>\<open>&&\<close>, \<^verbatim>\<open>||\<close>, \<^verbatim>\<open>!\<close> and \<^verbatim>\<open>if\<close> test it.\<close>

fun truthy :: "jsval \<Rightarrow> bool" where
  "truthy JUndefined = False"
| "truthy JNull = False"
| "truthy (JBool b) = b"
| "truthy (JNum n) = (n \<noteq> 0)"
| "truthy (JStr s) = (s \<noteq> [])"
| "truthy (JArr xs) = True"
| "truthy (JObj kvs) = True"

text \<open>\<^verbatim>\<open>typeof v === 'object'\<close> and \<^verbatim>\<open>typeof v === 'string'\<close>\<close>

fun typeof_object :: "jsval \<Rightarrow> bool" where
  "typeof_object JNull = True"
| "typeof_object (JArr xs) = True"
| "typeof_object (JObj kvs) = True"
| "typeof_object v = False"

fun typeof_string :: "jsval \<Rightarrow> bool" where
  "typeof_string (JStr s) = True"
| "typeof_string v = False"

text \<open>
  \<^verbatim>\<open>v.k\<close> and \<^verbatim>\<open>v[k]\<close> for the property names the controllers read (\<^verbatim>\<open>results\<close>,
  \<^verbatim>\<open>records\<close>, \<^verbatim>\<open>data\<close>, \<^verbatim>\<open>items\<close>, \<^verbatim>\<open>message\<close> and the keys of a \<^verbatim>\<open>for ... in\<close>):
  reading a property of \<^verbatim>\<open>null\<close> or \<^verbatim>\<open>undefined\<close> throws, a property an object does
  not have is \<^verbatim>\<open>undefined\<close>, and primitives and arrays have none of these names.
\<close>

fun get_prop :: "jsval \<Rightarrow> string \<Rightarrow> jserror + jsval" where
  "get_prop JUndefined k = Inl TypeError"
| "get_prop JNull k = Inl TypeError"
| "get_prop (JObj kvs) k = Inr (case map_of kvs k of Some v \<Rightarrow> v | None \<Rightarrow> JUndefined)"
| "get_prop v k = Inr JUndefined"

text \<open>\<^verbatim>\<open>v?.k\<close>: optional chaining short-circuits on \<^verbatim>\<open>null\<close> and \<^verbatim>\<open>undefined\<close>.\<close>

fun opt_prop :: "jsval \<Rightarrow> string \<Rightarrow> jserror + jsval" where
  "opt_prop JUndefined k = Inr JUndefined"
| "opt_prop JNull k = Inr JUndefined"
| "opt_prop v k = get_prop v k"

text \<open>The keys \<^verbatim>\<open>for (const k in v)\<close> visits that pass \<^verbatim>\<open>hasOwnProperty\<close>.\<close>

fun own_keys :: "jsval \<Rightarrow> string list" where
  "own_keys (JObj kvs) = map fst kvs"
| "own_keys v = []"

text \<open>Sequencing of computations that may throw.\<close>

fun bind_err :: "'e + 'a \<Rightarrow> ('a \<Rightarrow> 'e + 'b) \<Rightarrow> 'e + 'b" where
  "bind_err (Inl e) f = Inl e"
| "bind_err (Inr x) f = f x"

section \<open>\<^verbatim>\<open>_extractArray\<close>\<close>

text \<open>
  One probe of the chain,
  \<^verbatim>\<open>if (resp?.results && Array.isArray(resp.results)) return resp.results;\<close>
  with its three property reads; \<open>Some\<close> is the value returned, \<open>None\<close> falls through.
\<close>

definition probe_key :: "jsval \<Rightarrow> string \<Rightarrow> jserror + jsval option" where
  "probe_key resp k =
     bind_err (opt_prop resp k) (\<lambda>v.
       if truthy v then
         bind_err (get_prop resp k) (\<lambda>w.
           if isArray w then bind_err (get_prop resp k) (\<lambda>r. Inr (Some r))
           else Inr None)
       else Inr None)"

text \<open>
  The loop
  \<^verbatim>\<open>for (const k in resp) { if (hasOwnProperty.call(resp, k) && Array.isArray(resp[k])) return resp[k]; }\<close>
\<close>

fun for_in_array :: "jsval \<Rightarrow> string list \<Rightarrow> jserror + jsval option" where
  "for_in_array resp [] = Inr None"
| "for_in_array resp (k # ks) =
     (case get_prop resp k of
        Inl e \<Rightarrow> Inl e
      | Inr v \<Rightarrow>
          if isArray v then (case get_prop resp k of Inl e \<Rightarrow> Inl e | Inr r \<Rightarrow> Inr (Some r))
          else for_in_array resp ks)"

definition extractArray :: "jsval \<Rightarrow> jserror + jsval" where
  "extractArray resp =
     (if isArray resp then Inr resp
      else bind_err (probe_key resp ''results'') (\<lambda>r1. case r1 of Some a \<Rightarrow> Inr a | None \<Rightarrow>
           bind_err (probe_key resp ''records'') (\<lambda>r2. case r2 of Some a \<Rightarrow> Inr a | None \<Rightarrow>
           bind_err (probe_key resp ''data'') (\<lambda>r3. case r3 of Some a \<Rightarrow> Inr a | None \<Rightarrow>
           bind_err (probe_key resp ''items'') (\<lambda>r4. case r4 of Some a \<Rightarrow> Inr a | None \<Rightarrow>
           (if truthy resp \<and> typeof_object resp then
              bind_err (for_in_array resp (own_keys resp)) (\<lambda>r5. case r5 of Some a \<Rightarrow> Inr a | None \<Rightarrow>
              Inr (JArr []))
            else Inr (JArr [])))))))"

section \<open>Criteria inputs\<close>

text \<open>
  \<^verbatim>\<open>String.prototype.trim\<close> removes leading and trailing white space and line
  terminators; among 8-bit characters these are TAB, LF, VT, FF, CR, SPACE and NBSP.
\<close>

definition is_space :: "char \<Rightarrow> bool" where
  "is_space ch = (of_char ch \<in> {9, 10, 11, 12, 13, 32, 160 :: nat})"

definition trim :: "string \<Rightarrow> string" where
  "trim s = rev (dropWhile is_space (rev (dropWhile is_space s)))"

text \<open>
  The value the Flow runtime hands to a criteria setter. The properties are text inputs:
  a string, or \<^verbatim>\<open>null\<close>/\<^verbatim>\<open>undefined\<close> when the Flow variable is not set. Any other value
  is \<open>FFalsy\<close> when it is falsy (\<^verbatim>\<open>false\<close>, \<^verbatim>\<open>0\<close>, \<^verbatim>\<open>NaN\<close>) and otherwise \<open>FValue t\<close>, with \<open>t\<close>
  the string its \<^verbatim>\<open>toString()\<close> returns.
\<close>

datatype flowval = FUndefined | FNull | FFalsy | FString string | FValue string

text \<open>\<^verbatim>\<open>(v || '').toString()\<close>\<close>

fun or_empty_toString :: "flowval \<Rightarrow> string" where
  "or_empty_toString FUndefined = []"
| "or_empty_toString FNull = []"
| "or_empty_toString FFalsy = []"
| "or_empty_toString (FString t) = (if t \<noteq> [] then t else [])"
| "or_empty_toString (FValue t) = t"

text \<open>\<^verbatim>\<open>(v || '').toString().trim()\<close>\<close>

definition normalize_input :: "flowval \<Rightarrow> string" where
  "normalize_input v = trim (or_empty_toString v)"

text \<open>\<^verbatim>\<open>Array.prototype.join\<close> on an array of strings.\<close>

fun join_str :: "string \<Rightarrow> string list \<Rightarrow> string" where
  "join_str sep [] = []"
| "join_str sep [x] = x"
| "join_str sep (x # y # ys) = x @ sep @ join_str sep (y # ys)"

section \<open>The two controllers\<close>

text \<open>
  \<^verbatim>\<open>WoonstadDuplicateCheck\<close> and \<^verbatim>\<open>WoonstadBussDuplicateCheck\<close> are the same class up
  to the list of criteria fields, the Apex method called and the text of the error
  message; the model takes the controller as a parameter.
\<close>

datatype controller = Customer | Business

text \<open>The criteria fields, in the order \<^verbatim>\<open>_signature()\<close> and \<^verbatim>\<open>params\<close> list them.\<close>

fun field_names :: "controller \<Rightarrow> string list" where
  "field_names Customer = [''email'', ''phone'', ''mobile'']"
| "field_names Business =
     [''companyName'', ''kvkNumber'', ''vatNumber'', ''email'', ''phone'', ''mobile'']"

fun search_error_message :: "controller \<Rightarrow> string" where
  "search_error_message Customer = ''Er is een fout opgetreden bij het zoeken.''"
| "search_error_message Business =
     ''Er is een fout opgetreden bij het zoeken naar bedrijfsgegevens.''"

text \<open>The argument object of the Apex call: field name and value, in source order.\<close>

type_synonym params = "(string \<times> string) list"

text \<open>
  The three callbacks the controllers hand to \<^verbatim>\<open>setTimeout\<close>/\<^verbatim>\<open>setInterval\<close>:
  \<^verbatim>\<open>() => this._fetch(sig)\<close>, the one-second tick, and \<^verbatim>\<open>() => this._tryNext()\<close>.
\<close>

datatype callback = FetchSig string | TickSecond | AutoNext

text \<open>
  A live timer of the window: its id, whether it came from \<^verbatim>\<open>setInterval\<close>, the delay
  in milliseconds, and the callback.
\<close>

datatype timer = Timer (timer_id: nat) (repeats: bool) (delay_ms: int) (callback: callback)

text \<open>What \<^verbatim>\<open>this.dispatchEvent\<close> sends to the Flow.\<close>

datatype flow_event = FlowAttributeChange string jsval | FlowNavigationNext

text \<open>How the promise of the Apex call settles.\<close>

datatype response = Resolved jsval | Rejected

text \<open>
  The fields of the component (source names without the underscore), followed by the
  environment it acts on: the window's live timers and the next timer id, every Apex
  call issued so far, the calls not yet settled, and the events dispatched.
  \<open>criteria\<close> holds \<^verbatim>\<open>_email\<close>, \<^verbatim>\<open>_phone\<close>, ... by field name; \<open>newChecked\<close> is
  \<^verbatim>\<open>newCustomerChecked\<close>/\<^verbatim>\<open>newBusinessChecked\<close>. The inputs \<^verbatim>\<open>autoAdvance\<close> and
  \<^verbatim>\<open>autoAdvanceDelayMs\<close> are read by no method and are left out.
\<close>

record state =
  availableActions :: jsval
  criteria :: "string \<Rightarrow> string"
  selectedExisting :: bool
  selectedAccountId :: string
  rows :: "jsval list"
  message :: string
  secondsRemaining :: int
  loading :: bool
  newChecked :: bool
  debounceId :: "nat option"
  fetchInFlight :: bool
  autoNextFired :: bool
  intervalId :: "nat option"
  timeoutId :: "nat option"
  hasCompletedFetchWithInputs :: bool
  needsRefetch :: bool
  pendingSig :: string
  timers :: "timer list"
  next_timer_id :: nat
  calls :: "params list"
  outstanding :: "params list"
  dispatched :: "flow_event list"

text \<open>The field initialisers of the class; timer ids start at 1, as in a browser.\<close>

definition init :: state where
  "init = \<lparr> availableActions = JArr [], criteria = (\<lambda>n. []), selectedExisting = False,
     selectedAccountId = [], rows = [], message = [], secondsRemaining = 5,
     loading = False, newChecked = False, debounceId = None, fetchInFlight = False,
     autoNextFired = False, intervalId = None, timeoutId = None,
     hasCompletedFetchWithInputs = False, needsRefetch = False, pendingSig = [],
     timers = [], next_timer_id = 1, calls = [], outstanding = [], dispatched = [] \<rparr>"

subsection \<open>The window's timers\<close>

text \<open>\<^verbatim>\<open>setTimeout\<close>/\<^verbatim>\<open>setInterval\<close>; the id returned is \<open>next_timer_id\<close> before the call.\<close>

definition set_timer :: "bool \<Rightarrow> int \<Rightarrow> callback \<Rightarrow> state \<Rightarrow> state" where
  "set_timer rep d cb s =
     s\<lparr> timers := timers s @ [Timer (next_timer_id s) rep d cb],
        next_timer_id := Suc (next_timer_id s) \<rparr>"

text \<open>\<^verbatim>\<open>clearTimeout(i)\<close>/\<^verbatim>\<open>clearInterval(i)\<close>; an id that is not live is ignored.\<close>

definition clear_timer :: "nat \<Rightarrow> state \<Rightarrow> state" where
  "clear_timer i s = s\<lparr> timers := filter (\<lambda>t. timer_id t \<noteq> i) (timers s) \<rparr>"

text \<open>\<^verbatim>\<open>if (h) clearTimeout(h);\<close> for a handle field \<open>h\<close> (\<open>None\<close> is \<^verbatim>\<open>undefined\<close>).\<close>

fun clear_if_set :: "nat option \<Rightarrow> state \<Rightarrow> state" where
  "clear_if_set None s = s"
| "clear_if_set (Some i) s = (if i \<noteq> 0 then clear_timer i s else s)"

subsection \<open>Computed properties\<close>

definition hasRows :: "state \<Rightarrow> bool" where
  "hasRows s = (length (rows s) > 0)"

definition isCreateBtnDisabled :: "state \<Rightarrow> bool" where
  "isCreateBtnDisabled s = (\<not> newChecked s)"

text \<open>
  \<^verbatim>\<open>Array.isArray(this.availableActions) && this.availableActions.includes('NEXT')\<close>
\<close>

definition canNext :: "state \<Rightarrow> bool" where
  "canNext s = (case availableActions s of JArr xs \<Rightarrow> List.member xs (JStr ''NEXT'') | _ \<Rightarrow> False)"

definition hasAnyInput :: "controller \<Rightarrow> state \<Rightarrow> bool" where
  "hasAnyInput c s = list_ex (\<lambda>n. criteria s n \<noteq> []) (field_names c)"

definition signature :: "controller \<Rightarrow> state \<Rightarrow> string" where
  "signature c s = join_str ''|'' (map (criteria s) (field_names c))"

text \<open>\<^verbatim>\<open>{ email: this._email || '', phone: this._phone || '', ... }\<close>\<close>

definition params_of :: "controller \<Rightarrow> state \<Rightarrow> params" where
  "params_of c s =
     map (\<lambda>n. (n, if criteria s n \<noteq> [] then criteria s n else [])) (field_names c)"

subsection \<open>NEXT and timers\<close>

definition clearTimers :: "state \<Rightarrow> state" where
  "clearTimers s =
     (let s1 = clear_if_set (intervalId s) s;
          s2 = clear_if_set (timeoutId s1) s1
      in s2\<lparr> intervalId := None, timeoutId := None \<rparr>)"

definition tryNext :: "state \<Rightarrow> state" where
  "tryNext s =
     (if autoNextFired s then s
      else if \<not> canNext s then clearTimers s
      else (let s1 = clearTimers (s\<lparr> autoNextFired := True \<rparr>)
            in s1\<lparr> dispatched := dispatched s1 @ [FlowNavigationNext] \<rparr>))"

definition startCountdownAndAutoNext :: "int \<Rightarrow> state \<Rightarrow> state" where
  "startCountdownAndAutoNext seconds s =
     (if \<not> hasCompletedFetchWithInputs s \<or> needsRefetch s then s
      else (let s1 = clearTimers s in
            if \<not> canNext s1 then s1
            else (let s2 = s1\<lparr> secondsRemaining := seconds \<rparr>;
                      s3 = (set_timer True 1000 TickSecond s2)\<lparr> intervalId := Some (next_timer_id s2) \<rparr>;
                      s4 = (set_timer False (seconds * 1000) AutoNext s3)\<lparr> timeoutId := Some (next_timer_id s3) \<rparr>
                  in s4)))"

text \<open>The interval callback: \<^verbatim>\<open>if (this.secondsRemaining > 0) this.secondsRemaining -= 1;\<close>\<close>

definition tick :: "state \<Rightarrow> state" where
  "tick s = (if secondsRemaining s > 0 then s\<lparr> secondsRemaining := secondsRemaining s - 1 \<rparr> else s)"

subsection \<open>Fetch control\<close>

text \<open>
  \<^verbatim>\<open>_fetch(sig)\<close> up to its \<^verbatim>\<open>await\<close>: the guard, the flags, the timers, and the Apex
  call with the parameters read from the fields. The early \<^verbatim>\<open>return\<close> is outside the
  \<^verbatim>\<open>try\<close>, so no \<^verbatim>\<open>finally\<close> runs for it.
\<close>

definition fetch :: "controller \<Rightarrow> string \<Rightarrow> state \<Rightarrow> state" where
  "fetch c sig s =
     (if fetchInFlight s then s
      else (let s1 = clearTimers (s\<lparr> fetchInFlight := True, loading := True \<rparr>);
                p = params_of c s1
            in s1\<lparr> calls := calls s1 @ [p], outstanding := outstanding s1 @ [p] \<rparr>))"

definition scheduleFetch :: "controller \<Rightarrow> int \<Rightarrow> state \<Rightarrow> state" where
  "scheduleFetch c delayMs s =
     (if \<not> hasAnyInput c s then s
      else if fetchInFlight s then s\<lparr> needsRefetch := True, pendingSig := signature c s \<rparr>
      else (let s1 = clear_if_set (debounceId s) s;
                sig = signature c s1
            in (set_timer False delayMs (FetchSig sig) s1)\<lparr> debounceId := Some (next_timer_id s1) \<rparr>))"

text \<open>\<^verbatim>\<open>(resp && typeof resp.message === 'string') ? resp.message : ''\<close>\<close>

definition response_message :: "jsval \<Rightarrow> jserror + string" where
  "response_message resp =
     (if truthy resp then
        bind_err (get_prop resp ''message'') (\<lambda>m.
          if typeof_string m then
            bind_err (get_prop resp ''message'') (\<lambda>m'. Inr (case m' of JStr t \<Rightarrow> t | _ \<Rightarrow> []))
          else Inr [])
      else Inr [])"

text \<open>
  The refetch latch, in both the \<^verbatim>\<open>try\<close> and the \<^verbatim>\<open>catch\<close> block:
  \<^verbatim>\<open>const againSig = this._pendingSig; this._needsRefetch = false; this._pendingSig = '';
  this._fetchInFlight = false; return this._fetch(againSig);\<close>
\<close>

definition refetch :: "controller \<Rightarrow> state \<Rightarrow> state" where
  "refetch c s =
     (let againSig = pendingSig s
      in fetch c againSig (s\<lparr> needsRefetch := False, pendingSig := [], fetchInFlight := False \<rparr>))"

text \<open>The \<^verbatim>\<open>catch (e)\<close> block.\<close>

definition fetch_catch :: "controller \<Rightarrow> state \<Rightarrow> state" where
  "fetch_catch c s =
     (let s1 = s\<lparr> rows := [], message := search_error_message c,
                  hasCompletedFetchWithInputs := True, loading := False \<rparr>
      in if needsRefetch s1 then refetch c s1
         else startCountdownAndAutoNext 5 s1)"

text \<open>
  The \<^verbatim>\<open>try\<close> block after the \<^verbatim>\<open>await\<close>, for a resolved promise. \<open>Inl\<close> is an exception
  thrown by the first two statements, before any field is written.
\<close>

definition fetch_try :: "controller \<Rightarrow> jsval \<Rightarrow> state \<Rightarrow> jserror + state" where
  "fetch_try c resp s =
     bind_err (extractArray resp) (\<lambda>results.
     bind_err (response_message resp) (\<lambda>msg.
       (let s1 = s\<lparr> rows := (case results of JArr xs \<Rightarrow> xs | _ \<Rightarrow> []), message := msg,
                     hasCompletedFetchWithInputs := True, loading := False \<rparr>
        in Inr (if hasRows s1 then clearTimers s1
                else if needsRefetch s1 then refetch c s1
                else startCountdownAndAutoNext 5 s1))))"

text \<open>
  \<^verbatim>\<open>_fetch\<close> from the point where the awaited promise settles: \<^verbatim>\<open>try\<close>, \<^verbatim>\<open>catch\<close>,
  and then \<^verbatim>\<open>finally { this._fetchInFlight = false; }\<close>, which also runs after the
  \<^verbatim>\<open>return this._fetch(againSig)\<close> of the refetch latch has started the next call.
\<close>

definition fetch_resume :: "controller \<Rightarrow> response \<Rightarrow> state \<Rightarrow> state" where
  "fetch_resume c r s =
     (let s1 = (case r of
                  Rejected \<Rightarrow> fetch_catch c s
                | Resolved resp \<Rightarrow>
                    (case fetch_try c resp s of Inl e \<Rightarrow> fetch_catch c s | Inr s' \<Rightarrow> s'))
      in s1\<lparr> fetchInFlight := False \<rparr>)"

subsection \<open>Setters and UI handlers\<close>

text \<open>
  \<^verbatim>\<open>set email(v) { this._email = (v || '').toString().trim(); this._scheduleFetch(); }\<close>
  and its siblings; a controller has setters for its own criteria fields only.
\<close>

definition set_criterion :: "controller \<Rightarrow> string \<Rightarrow> flowval \<Rightarrow> state \<Rightarrow> state" where
  "set_criterion c n v s =
     (if n \<in> set (field_names c)
      then scheduleFetch c 100 (s\<lparr> criteria := (criteria s)(n := normalize_input v) \<rparr>)
      else s)"

text \<open>\<open>rid\<close> is \<^verbatim>\<open>evt?.currentTarget?.dataset?.id\<close>: a string, or \<open>None\<close> for \<^verbatim>\<open>undefined\<close>.\<close>

definition handleRowClick :: "string option \<Rightarrow> state \<Rightarrow> state" where
  "handleRowClick rid s =
     (case rid of
        None \<Rightarrow> s
      | Some i \<Rightarrow>
          if i = [] then s
          else (let s1 = s\<lparr> selectedExisting := True, selectedAccountId := i \<rparr>;
                    s2 = s1\<lparr> dispatched := dispatched s1 @
                            [FlowAttributeChange ''selectedExisting'' (JBool True),
                             FlowAttributeChange ''selectedAccountId'' (JStr i)] \<rparr>
                in tryNext (clearTimers s2)))"

definition handleRowKeydown :: "string \<Rightarrow> string option \<Rightarrow> state \<Rightarrow> state" where
  "handleRowKeydown key rid s =
     (if key = ''Enter'' \<or> key = '' '' then handleRowClick rid s else s)"

definition handleNewCheckbox :: "bool \<Rightarrow> state \<Rightarrow> state" where
  "handleNewCheckbox checked s =
     (let s1 = s\<lparr> newChecked := checked \<rparr>
      in if newChecked s1
         then (let s2 = s1\<lparr> selectedExisting := False, selectedAccountId := [] \<rparr>
               in s2\<lparr> dispatched := dispatched s2 @
                       [FlowAttributeChange ''selectedExisting'' (JBool False),
                        FlowAttributeChange ''selectedAccountId'' (JStr [])] \<rparr>)
         else s1)"

definition handleNext :: "state \<Rightarrow> state" where
  "handleNext s = (if isCreateBtnDisabled s then s else tryNext (clearTimers s))"

subsection \<open>The event loop\<close>

text \<open>
  A live timer fires: a \<^verbatim>\<open>setTimeout\<close> timer is spent, a \<^verbatim>\<open>setInterval\<close> timer stays
  live; then its callback runs. An id that is not live fires nothing.
\<close>

definition fire_timer :: "controller \<Rightarrow> nat \<Rightarrow> state \<Rightarrow> state" where
  "fire_timer c i s =
     (case find (\<lambda>t. timer_id t = i) (timers s) of
        None \<Rightarrow> s
      | Some t \<Rightarrow>
          (let s1 = (if repeats t then s else clear_timer i s)
           in case callback t of
                FetchSig sig \<Rightarrow> fetch c sig s1
              | TickSecond \<Rightarrow> tick s1
              | AutoNext \<Rightarrow> tryNext s1))"

text \<open>
  The \<open>k\<close>-th unsettled Apex call settles with \<open>r\<close> and the \<^verbatim>\<open>_fetch\<close> awaiting it
  resumes; there is nothing to settle when \<open>k\<close> is out of range.
\<close>

definition settle_call :: "controller \<Rightarrow> nat \<Rightarrow> response \<Rightarrow> state \<Rightarrow> state" where
  "settle_call c k r s =
     (if k < length (outstanding s)
      then fetch_resume c r (s\<lparr> outstanding := take k (outstanding s) @ drop (Suc k) (outstanding s) \<rparr>)
      else s)"

text \<open>
  Everything that can happen to a component on the single-threaded event loop: the Flow
  sets an input, a timer fires, an Apex call settles, or the user acts.
\<close>

datatype event =
    SetCriterion string flowval
  | SetAvailableActions jsval
  | TimerFires nat
  | CallSettles nat response
  | RowClick "string option"
  | RowKeydown string "string option"
  | NewCheckbox bool
  | NextClick

fun step :: "controller \<Rightarrow> event \<Rightarrow> state \<Rightarrow> state" where
  "step c (SetCriterion n v) s = set_criterion c n v s"
| "step c (SetAvailableActions a) s = s\<lparr> availableActions := a \<rparr>"
| "step c (TimerFires i) s = fire_timer c i s"
| "step c (CallSettles k r) s = settle_call c k r s"
| "step c (RowClick rid) s = handleRowClick rid s"
| "step c (RowKeydown key rid) s = handleRowKeydown key rid s"
| "step c (NewCheckbox b) s = handleNewCheckbox b s"
| "step c NextClick s = handleNext s"

text \<open>A session: the events in order, from a given state.\<close>

fun run :: "controller \<Rightarrow> event list \<Rightarrow> state \<Rightarrow> state" where
  "run c [] s = s"
| "run c (e # es) s = run c es (step c e s)"

section \<open>Notions the properties are stated with\<close>

subsection \<open>Predicates and observations\<close>

text \<open>The elements of an array value.\<close>

fun elems :: "jsval \<Rightarrow> jsval list" where
  "elems (JArr xs) = xs"
| "elems v = []"

text \<open>
  Match extraction as the specification words it: a bare sequence; otherwise the first
  sequence under the ordered candidate keys; otherwise the first property of the response
  object whose value is a sequence; otherwise nothing.
\<close>

definition candidate_keys :: "string list" where
  "candidate_keys = [''results'', ''records'', ''data'', ''items'']"

fun spec_extract :: "jsval \<Rightarrow> jsval list" where
  "spec_extract (JArr xs) = xs"
| "spec_extract (JObj kvs) =
     (case find isArray (List.map_filter (map_of kvs) candidate_keys) of
        Some a \<Rightarrow> elems a
      | None \<Rightarrow> (case find (\<lambda>kv. isArray (snd kv)) kvs of Some kv \<Rightarrow> elems (snd kv) | None \<Rightarrow> []))"
| "spec_extract v = []"

text \<open>The specification's empty response: a failed call, or a zero-length extraction.\<close>

fun spec_empty :: "response \<Rightarrow> bool" where
  "spec_empty Rejected = True"
| "spec_empty (Resolved resp) = (length (spec_extract resp) = 0)"

text \<open>A JavaScript object has each property name once.\<close>

fun distinct_keys :: "jsval \<Rightarrow> bool" where
  "distinct_keys (JObj kvs) = distinct (map fst kvs)"
| "distinct_keys v = True"

fun distinct_keys_response :: "response \<Rightarrow> bool" where
  "distinct_keys_response Rejected = True"
| "distinct_keys_response (Resolved resp) = distinct_keys resp"

text \<open>The value is an array, or an object with an array among its property values.\<close>

fun holds_array :: "jsval \<Rightarrow> bool" where
  "holds_array (JArr xs) = True"
| "holds_array (JObj kvs) = list_ex (\<lambda>kv. isArray (snd kv)) kvs"
| "holds_array v = False"

text \<open>A string with no white space at either end, and a string of white space only.\<close>

definition trimmed :: "string \<Rightarrow> bool" where
  "trimmed t = (t = [] \<or> (\<not> is_space (hd t) \<and> \<not> is_space (last t)))"

definition blank :: "string \<Rightarrow> bool" where
  "blank t = list_all is_space t"

text \<open>The number of workflow-advance signals dispatched so far.\<close>

definition navCount :: "state \<Rightarrow> nat" where
  "navCount s = length (filter (\<lambda>e. e = FlowNavigationNext) (dispatched s))"

text \<open>The live debounce timers: those whose callback is \<^verbatim>\<open>() => this._fetch(sig)\<close>.\<close>

fun is_fetch_timer :: "timer \<Rightarrow> bool" where
  "is_fetch_timer (Timer i rep d (FetchSig sig)) = True"
| "is_fetch_timer t = False"

definition debounce_timers :: "state \<Rightarrow> timer list" where
  "debounce_timers s = filter is_fetch_timer (timers s)"

text \<open>The rows a settled call yields: none when it failed.\<close>

fun matches_of :: "response \<Rightarrow> jsval list" where
  "matches_of Rejected = []"
| "matches_of (Resolved resp) = (case extractArray resp of Inr a \<Rightarrow> elems a | Inl e \<Rightarrow> [])"

text \<open>
  A burst of setter calls, as events, and the condition that every call of the burst
  leaves at least one criteria field non-empty.
\<close>

fun burst_events :: "(string \<times> flowval) list \<Rightarrow> event list" where
  "burst_events [] = []"
| "burst_events (nv # nvs) = SetCriterion (fst nv) (snd nv) # burst_events nvs"

fun input_throughout :: "controller \<Rightarrow> (string \<times> flowval) list \<Rightarrow> state \<Rightarrow> bool" where
  "input_throughout c [] s = True"
| "input_throughout c (nv # nvs) s =
     (fst nv \<in> set (field_names c) \<and>
      hasAnyInput c (set_criterion c (fst nv) (snd nv) s) \<and>
      input_throughout c nvs (set_criterion c (fst nv) (snd nv) s))"

text \<open>
  A handle field holds the id of the timer \<open>t\<close> and passes the \<^verbatim>\<open>if (h)\<close> test.
\<close>

definition live_handle :: "nat option \<Rightarrow> timer \<Rightarrow> bool" where
  "live_handle h t = (h = Some (timer_id t) \<and> timer_id t \<noteq> 0)"

text \<open>The gate: one signal dispatched when \<^verbatim>\<open>_autoNextFired\<close> is set, none before.\<close>

definition gate_ok :: "state \<Rightarrow> bool" where
  "gate_ok s = (navCount s = (if autoNextFired s then 1 else 0))"

text \<open>Every criteria field is a trimmed string.\<close>

definition all_trimmed :: "state \<Rightarrow> bool" where
  "all_trimmed s = (\<forall>n. trimmed (criteria s n))"

text \<open>No criteria field other than \<open>n\<close> has a value.\<close>

definition others_empty :: "controller \<Rightarrow> string \<Rightarrow> state \<Rightarrow> bool" where
  "others_empty c n s = list_all (\<lambda>m. m = n \<or> criteria s m = []) (field_names c)"

text \<open>
  The timers of a session: ids are positive, below the next id and pairwise different,
  and a live debounce timer is the one \<^verbatim>\<open>_debounceId\<close> names.
\<close>

definition timers_ok :: "state \<Rightarrow> bool" where
  "timers_ok s =
     (0 < next_timer_id s \<and> distinct (map timer_id (timers s)) \<and>
      list_all (\<lambda>t. 0 < timer_id t \<and> timer_id t < next_timer_id s \<and>
                    (is_fetch_timer t \<longrightarrow> debounceId s = Some (timer_id t))) (timers s))"

text \<open>While \<^verbatim>\<open>_fetchInFlight\<close> is set, an Apex call is unsettled.\<close>

definition inflight_ok :: "state \<Rightarrow> bool" where
  "inflight_ok s = (fetchInFlight s \<longrightarrow> outstanding s \<noteq> [])"

subsection \<open>Example sessions\<close>

text \<open>Three setter calls in a row, each leaving a field with a value.\<close>

definition typing_burst :: "(string \<times> flowval) list" where
  "typing_burst = [(''email'', FString ''a''), (''email'', FString ''ab''), (''phone'', FString '' 06 '')]"

text \<open>Two setter calls in a row, the second one emptying the only field with a value.\<close>

definition clearing_burst :: "(string \<times> flowval) list" where
  "clearing_burst = [(''email'', FString ''a''), (''email'', FString [])]"

text \<open>A session with NEXT permitted, up to the point where the Apex call is awaited.\<close>

definition session_awaiting :: "event list" where
  "session_awaiting =
     [SetAvailableActions (JArr [JStr ''NEXT'']), SetCriterion ''email'' (FString ''a@b.nl''),
      TimerFires 1]"

text \<open>
  A session in which the workflow permits NEXT, one criterion is entered, the search
  finds nothing, and the countdown ticks once.
\<close>

definition session_to_expiry :: "event list" where
  "session_to_expiry =
     [SetAvailableActions (JArr [JStr ''NEXT'']), SetCriterion ''email'' (FString ''a@b.nl''),
      TimerFires 1, CallSettles 0 (Resolved (JArr [])), TimerFires 2]"

text \<open>A session up to the awaited Apex call, without NEXT among the available actions.\<close>

definition session_no_next :: "event list" where
  "session_no_next = [SetCriterion ''email'' (FString ''a@b.nl''), TimerFires 1]"

text \<open>A criterion is typed and cleared again before the debounce timer fires.\<close>

definition session_typed_then_cleared :: "event list" where
  "session_typed_then_cleared =
     [SetAvailableActions (JArr [JStr ''NEXT'']), SetCriterion ''email'' (FString ''a''),
      SetCriterion ''email'' (FString [])]"

text \<open>A search finds nothing, the countdown starts, and the criterion is cleared.\<close>

definition session_counting_then_cleared :: "event list" where
  "session_counting_then_cleared =
     [SetAvailableActions (JArr [JStr ''NEXT'']), SetCriterion ''email'' (FString ''a''),
      TimerFires 1, CallSettles 0 (Resolved (JArr [])), SetCriterion ''email'' (FString [])]"

text \<open>While the Apex call is awaited the criterion is changed and then cleared.\<close>

definition session_changed_then_cleared_in_flight :: "event list" where
  "session_changed_then_cleared_in_flight =
     [SetCriterion ''email'' (FString ''a''), TimerFires 1,
      SetCriterion ''email'' (FString ''b''), SetCriterion ''email'' (FString [])]"

text \<open>While the Apex call is awaited the criterion is changed.\<close>

definition session_changed_in_flight :: "event list" where
  "session_changed_in_flight =
     [SetCriterion ''email'' (FString ''a''), TimerFires 1, SetCriterion ''email'' (FString ''b'')]"

text \<open>
  The criterion is changed during the first call, which then settles with no match, and
  changed again during the refetch.
\<close>

definition session_overlap :: "event list" where
  "session_overlap =
     [SetCriterion ''email'' (FString ''a''), TimerFires 1,
      SetCriterion ''email'' (FString ''b''), CallSettles 0 (Resolved (JArr [])),
      SetCriterion ''email'' (FString ''c''), TimerFires 2]"

section \<open>Properties\<close>

subsection \<open>Match extraction\<close>

lemma isArray_elems: "isArray a \<Longrightarrow> JArr (elems a) = a"
  by (cases a) simp_all

lemma probe_key_obj:
  "probe_key (JObj kvs) k =
     Inr (case map_of kvs k of Some v \<Rightarrow> if isArray v then Some v else None | None \<Rightarrow> None)"
  by (auto simp: probe_key_def split: option.splits elim: isArray.elims)

lemma for_in_array_obj:
  "distinct (map fst kvs) \<Longrightarrow> set ps \<subseteq> set kvs \<Longrightarrow>
   for_in_array (JObj kvs) (map fst ps) = Inr (map_option snd (find (\<lambda>kv. isArray (snd kv)) ps))"
proof (induction ps)
  case Nil
  then show ?case by simp
next
  case (Cons p ps)
  obtain k v where p: "p = (k, v)" by (cases p)
  with Cons.prems have "map_of kvs k = Some v" by simp
  then have g: "get_prop (JObj kvs) k = Inr v" by simp
  have step: "for_in_array (JObj kvs) (map fst (p # ps)) =
      (if isArray v then Inr (Some v) else for_in_array (JObj kvs) (map fst ps))"
    using g p by (simp del: get_prop.simps)
  from Cons.prems have "set ps \<subseteq> set kvs" by simp
  with Cons.IH Cons.prems(1) have
    "for_in_array (JObj kvs) (map fst ps) = Inr (map_option snd (find (\<lambda>kv. isArray (snd kv)) ps))"
    by blast
  with step p show ?case by simp
qed

lemma for_in_array_total:
  "for_in_array (JObj kvs) ks = Inr None \<or> (\<exists>xs. for_in_array (JObj kvs) ks = Inr (Some (JArr xs)))"
  by (induction ks) (auto elim: isArray.elims)

lemma for_in_array_none:
  "\<not> list_ex (\<lambda>kv. isArray (snd kv)) kvs \<Longrightarrow> for_in_array (JObj kvs) ks = Inr None"
proof (induction ks)
  case Nil
  then show ?case by simp
next
  case (Cons k ks)
  have "\<not> isArray (case map_of kvs k of None \<Rightarrow> JUndefined | Some v \<Rightarrow> v)"
  proof (cases "map_of kvs k")
    case None
    then show ?thesis by simp
  next
    case (Some v)
    then have "(k, v) \<in> set kvs" by (rule map_of_SomeD)
    with Cons.prems show ?thesis using Some by (auto simp: list_ex_iff)
  qed
  with Cons show ?case by simp
qed

lemma find_isArray_elems:
  "find (\<lambda>kv. isArray (snd kv)) kvs = Some kv \<Longrightarrow> JArr (elems (snd kv)) = snd kv"
  by (auto simp: find_Some_iff isArray_elems)

lemma extractArray_obj_spec:
  assumes "distinct (map fst kvs)"
  shows "extractArray (JObj kvs) = Inr (JArr (spec_extract (JObj kvs)))"
  using for_in_array_obj [OF assms subset_refl]
  by (auto simp: extractArray_def probe_key_obj candidate_keys_def isArray_elems
      split: option.splits dest: find_isArray_elems)

lemma extractArray_spec:
  "distinct_keys resp \<Longrightarrow> extractArray resp = Inr (JArr (spec_extract resp))"
proof (cases resp)
  case (JObj kvs)
  assume "distinct_keys resp"
  with JObj show ?thesis using extractArray_obj_spec by simp
qed (simp_all add: extractArray_def probe_key_def)

lemma extractArray_returns_array: "\<exists>xs. extractArray v = Inr (JArr xs)"
proof (cases v)
  case (JObj kvs)
  show ?thesis using for_in_array_total [of kvs "map fst kvs"]
    by (auto simp: JObj extractArray_def probe_key_obj split: option.splits elim: isArray.elims)
qed (simp_all add: extractArray_def probe_key_def)

lemma extractArray_nothing: "\<not> holds_array v \<Longrightarrow> extractArray v = Inr (JArr [])"
proof (cases v)
  case (JObj kvs)
  assume h: "\<not> holds_array v"
  have a: "\<not> isArray w" if "map_of kvs k = Some w" for k w
    using h JObj map_of_SomeD [OF that] by (auto simp: list_ex_iff)
  from h JObj have "for_in_array (JObj kvs) (map fst kvs) = Inr None"
    by (simp add: for_in_array_none)
  then show ?thesis
    by (auto simp: JObj extractArray_def probe_key_obj split: option.splits dest: a)
qed (simp_all add: extractArray_def probe_key_def)

lemma response_message_total: "\<exists>m. response_message resp = Inr m"
  by (cases resp) (simp_all add: response_message_def)

subsection \<open>Normal forms of the timer operations\<close>

lemma clear_if_set_eq:
  "clear_if_set h s = s\<lparr> timers := filter (\<lambda>t. \<not> live_handle h t) (timers s) \<rparr>"
proof (cases h)
  case None
  then show ?thesis by (simp add: live_handle_def)
next
  case (Some i)
  show ?thesis
  proof (cases "i = 0")
    case True
    then have "filter (\<lambda>t. \<not> live_handle h t) (timers s) = timers s"
      using Some by (auto simp: live_handle_def intro: filter_True)
    with True Some show ?thesis by simp
  next
    case False
    then have "(\<lambda>t. \<not> live_handle h t) = (\<lambda>t. timer_id t \<noteq> i)"
      using Some by (auto simp: live_handle_def fun_eq_iff)
    with False Some show ?thesis by (simp add: clear_timer_def)
  qed
qed

lemma clearTimers_eq:
  "clearTimers s =
     s\<lparr> timers := filter (\<lambda>t. \<not> live_handle (timeoutId s) t)
                    (filter (\<lambda>t. \<not> live_handle (intervalId s) t) (timers s)),
        intervalId := None, timeoutId := None \<rparr>"
  by (simp add: clearTimers_def Let_def clear_if_set_eq)

lemma tryNext_fired: "autoNextFired s \<Longrightarrow> tryNext s = s"
  by (simp add: tryNext_def)

lemma canNext_cong: "availableActions s = availableActions t \<Longrightarrow> canNext s = canNext t"
  by (simp add: canNext_def)

lemma tryNext_eq:
  "tryNext s =
     (if autoNextFired s then s
      else if \<not> canNext s then clearTimers s
      else (clearTimers s)\<lparr> autoNextFired := True, dispatched := dispatched s @ [FlowNavigationNext] \<rparr>)"
  by (simp add: tryNext_def Let_def clearTimers_eq)


subsection \<open>What each operation leaves alone\<close>

lemma clearTimers_frame [simp]:
  "autoNextFired (clearTimers s) = autoNextFired s"
  "dispatched (clearTimers s) = dispatched s"
  "availableActions (clearTimers s) = availableActions s"
  "criteria (clearTimers s) = criteria s"
  "calls (clearTimers s) = calls s"
  "outstanding (clearTimers s) = outstanding s"
  "fetchInFlight (clearTimers s) = fetchInFlight s"
  "needsRefetch (clearTimers s) = needsRefetch s"
  "pendingSig (clearTimers s) = pendingSig s"
  "rows (clearTimers s) = rows s"
  "next_timer_id (clearTimers s) = next_timer_id s"
  "debounceId (clearTimers s) = debounceId s"
  "hasCompletedFetchWithInputs (clearTimers s) = hasCompletedFetchWithInputs s"
  "secondsRemaining (clearTimers s) = secondsRemaining s"
  "intervalId (clearTimers s) = None"
  "timeoutId (clearTimers s) = None"
  by (simp_all add: clearTimers_eq)

lemma canNext_clearTimers [simp]: "canNext (clearTimers s) = canNext s"
  by (simp add: canNext_def)

lemma hasAnyInput_cong: "criteria s = criteria t \<Longrightarrow> hasAnyInput c s = hasAnyInput c t"
  by (simp add: hasAnyInput_def)

lemma signature_cong: "criteria s = criteria t \<Longrightarrow> signature c s = signature c t"
  by (simp add: signature_def)

lemma params_of_cong: "criteria s = criteria t \<Longrightarrow> params_of c s = params_of c t"
  by (simp add: params_of_def)

lemma startCountdown_frame [simp]:
  "autoNextFired (startCountdownAndAutoNext n s) = autoNextFired s"
  "dispatched (startCountdownAndAutoNext n s) = dispatched s"
  "availableActions (startCountdownAndAutoNext n s) = availableActions s"
  "criteria (startCountdownAndAutoNext n s) = criteria s"
  "calls (startCountdownAndAutoNext n s) = calls s"
  "outstanding (startCountdownAndAutoNext n s) = outstanding s"
  "fetchInFlight (startCountdownAndAutoNext n s) = fetchInFlight s"
  "needsRefetch (startCountdownAndAutoNext n s) = needsRefetch s"
  "pendingSig (startCountdownAndAutoNext n s) = pendingSig s"
  "rows (startCountdownAndAutoNext n s) = rows s"
  "debounceId (startCountdownAndAutoNext n s) = debounceId s"
  by (simp_all add: startCountdownAndAutoNext_def Let_def set_timer_def)

lemma fetch_frame [simp]:
  "autoNextFired (fetch c sig s) = autoNextFired s"
  "dispatched (fetch c sig s) = dispatched s"
  "availableActions (fetch c sig s) = availableActions s"
  "criteria (fetch c sig s) = criteria s"
  "needsRefetch (fetch c sig s) = needsRefetch s"
  "pendingSig (fetch c sig s) = pendingSig s"
  "rows (fetch c sig s) = rows s"
  "next_timer_id (fetch c sig s) = next_timer_id s"
  "debounceId (fetch c sig s) = debounceId s"
  by (simp_all add: fetch_def Let_def)

lemma refetch_frame [simp]:
  "autoNextFired (refetch c s) = autoNextFired s"
  "dispatched (refetch c s) = dispatched s"
  "availableActions (refetch c s) = availableActions s"
  "criteria (refetch c s) = criteria s"
  "rows (refetch c s) = rows s"
  "next_timer_id (refetch c s) = next_timer_id s"
  "debounceId (refetch c s) = debounceId s"
  by (simp_all add: refetch_def Let_def)

lemma fetch_catch_frame [simp]:
  "autoNextFired (fetch_catch c s) = autoNextFired s"
  "dispatched (fetch_catch c s) = dispatched s"
  "availableActions (fetch_catch c s) = availableActions s"
  "criteria (fetch_catch c s) = criteria s"
  "rows (fetch_catch c s) = []"
  "debounceId (fetch_catch c s) = debounceId s"
  by (simp_all add: fetch_catch_def Let_def)

lemma fetch_try_frame:
  assumes "fetch_try c resp s = Inr s'"
  shows "autoNextFired s' = autoNextFired s"
    and "dispatched s' = dispatched s"
    and "availableActions s' = availableActions s"
    and "criteria s' = criteria s"
    and "debounceId s' = debounceId s"
    and "rows s' = matches_of (Resolved resp)"
proof -
  from assms obtain results msg where
    r: "extractArray resp = Inr results" and
    s': "s' = (let s1 = s\<lparr> rows := (case results of JArr xs \<Rightarrow> xs | _ \<Rightarrow> []), message := msg,
                     hasCompletedFetchWithInputs := True, loading := False \<rparr>
        in (if hasRows s1 then clearTimers s1
                else if needsRefetch s1 then refetch c s1
                else startCountdownAndAutoNext 5 s1))"
    unfolding fetch_try_def
    by (cases "extractArray resp"; cases "response_message resp") (auto simp: Let_def)
  have e: "(case results of JArr xs \<Rightarrow> xs | _ \<Rightarrow> []) = elems results"
    by (cases results) simp_all
  show "autoNextFired s' = autoNextFired s" "dispatched s' = dispatched s"
    "availableActions s' = availableActions s" "criteria s' = criteria s"
    "debounceId s' = debounceId s"
    by (simp_all add: s' Let_def)
  show "rows s' = matches_of (Resolved resp)"
    by (simp add: s' Let_def r e)
qed

lemma fetch_resume_frame [simp]:
  "autoNextFired (fetch_resume c r s) = autoNextFired s"
  "dispatched (fetch_resume c r s) = dispatched s"
  "availableActions (fetch_resume c r s) = availableActions s"
  "criteria (fetch_resume c r s) = criteria s"
  "debounceId (fetch_resume c r s) = debounceId s"
  "fetchInFlight (fetch_resume c r s) = False"
  by (auto simp: fetch_resume_def Let_def fetch_try_frame split: response.splits sum.splits)

lemma scheduleFetch_frame [simp]:
  "autoNextFired (scheduleFetch c d s) = autoNextFired s"
  "dispatched (scheduleFetch c d s) = dispatched s"
  "availableActions (scheduleFetch c d s) = availableActions s"
  "criteria (scheduleFetch c d s) = criteria s"
  "calls (scheduleFetch c d s) = calls s"
  "outstanding (scheduleFetch c d s) = outstanding s"
  "fetchInFlight (scheduleFetch c d s) = fetchInFlight s"
  "rows (scheduleFetch c d s) = rows s"
  "intervalId (scheduleFetch c d s) = intervalId s"
  "timeoutId (scheduleFetch c d s) = timeoutId s"
  by (simp_all add: scheduleFetch_def Let_def set_timer_def clear_if_set_eq)

lemma set_criterion_frame [simp]:
  "autoNextFired (set_criterion c n v s) = autoNextFired s"
  "dispatched (set_criterion c n v s) = dispatched s"
  "availableActions (set_criterion c n v s) = availableActions s"
  "calls (set_criterion c n v s) = calls s"
  "outstanding (set_criterion c n v s) = outstanding s"
  "fetchInFlight (set_criterion c n v s) = fetchInFlight s"
  by (simp_all add: set_criterion_def)

lemma tick_frame [simp]:
  "autoNextFired (tick s) = autoNextFired s"
  "dispatched (tick s) = dispatched s"
  "availableActions (tick s) = availableActions s"
  "criteria (tick s) = criteria s"
  "timers (tick s) = timers s"
  "next_timer_id (tick s) = next_timer_id s"
  "debounceId (tick s) = debounceId s"
  "calls (tick s) = calls s"
  "outstanding (tick s) = outstanding s"
  "fetchInFlight (tick s) = fetchInFlight s"
  by (simp_all add: tick_def)

lemma clear_timer_frame [simp]:
  "autoNextFired (clear_timer i s) = autoNextFired s"
  "dispatched (clear_timer i s) = dispatched s"
  "availableActions (clear_timer i s) = availableActions s"
  "criteria (clear_timer i s) = criteria s"
  "next_timer_id (clear_timer i s) = next_timer_id s"
  "debounceId (clear_timer i s) = debounceId s"
  "calls (clear_timer i s) = calls s"
  "outstanding (clear_timer i s) = outstanding s"
  "fetchInFlight (clear_timer i s) = fetchInFlight s"
  "timers (clear_timer i s) = filter (\<lambda>t. timer_id t \<noteq> i) (timers s)"
  by (simp_all add: clear_timer_def)

lemma tryNext_frame [simp]:
  "availableActions (tryNext s) = availableActions s"
  "criteria (tryNext s) = criteria s"
  "calls (tryNext s) = calls s"
  "outstanding (tryNext s) = outstanding s"
  "fetchInFlight (tryNext s) = fetchInFlight s"
  "next_timer_id (tryNext s) = next_timer_id s"
  "debounceId (tryNext s) = debounceId s"
  by (simp_all add: tryNext_eq)

subsection \<open>The transition gate\<close>

lemma gate_ok_cong:
  "autoNextFired t = autoNextFired s \<Longrightarrow> dispatched t = dispatched s \<Longrightarrow> gate_ok t = gate_ok s"
  by (simp add: gate_ok_def navCount_def)

lemma fired_tryNext: "autoNextFired s \<Longrightarrow> autoNextFired (tryNext s)"
  by (simp add: tryNext_eq)

lemma gate_ok_tryNext: "gate_ok s \<Longrightarrow> gate_ok (tryNext s)"
  by (auto simp: tryNext_eq gate_ok_def navCount_def split: if_splits)

lemma tryNext_emits: "gate_ok s \<Longrightarrow> canNext s \<Longrightarrow> autoNextFired (tryNext s) \<and> navCount (tryNext s) = 1"
  by (simp add: tryNext_eq gate_ok_def navCount_def)

lemma gate_ok_handleRowClick: "gate_ok s \<Longrightarrow> gate_ok (handleRowClick rid s)"
  by (auto simp: handleRowClick_def Let_def gate_ok_def navCount_def tryNext_eq split: option.splits)

lemma fired_handleRowClick: "autoNextFired s \<Longrightarrow> autoNextFired (handleRowClick rid s)"
  by (auto simp: handleRowClick_def Let_def tryNext_eq split: option.splits)

lemma gate_ok_handleNewCheckbox: "gate_ok s \<Longrightarrow> gate_ok (handleNewCheckbox b s)"
  by (auto simp: handleNewCheckbox_def Let_def gate_ok_def navCount_def)

lemma fired_handleNewCheckbox: "autoNextFired s \<Longrightarrow> autoNextFired (handleNewCheckbox b s)"
  by (auto simp: handleNewCheckbox_def Let_def)

lemma gate_ok_handleNext: "gate_ok s \<Longrightarrow> gate_ok (handleNext s)"
  by (auto simp: handleNext_def gate_ok_def navCount_def tryNext_eq)

lemma fired_handleNext: "autoNextFired s \<Longrightarrow> autoNextFired (handleNext s)"
  by (auto simp: handleNext_def tryNext_eq)

lemma gate_ok_fire_timer: "gate_ok s \<Longrightarrow> gate_ok (fire_timer c i s)"
proof -
  assume g: "gate_ok s"
  have g1: "gate_ok (clear_timer i s)" using g by (simp add: gate_ok_cong [of "clear_timer i s" s])
  show ?thesis
    using g g1 gate_ok_tryNext [of s] gate_ok_tryNext [of "clear_timer i s"]
    by (auto simp: fire_timer_def Let_def gate_ok_cong [of "fetch c sig t" t for sig t]
        gate_ok_cong [of "tick t" t for t] split: option.splits callback.splits)
qed

lemma fired_fire_timer: "autoNextFired s \<Longrightarrow> autoNextFired (fire_timer c i s)"
  by (auto simp: fire_timer_def Let_def fired_tryNext split: option.splits callback.splits)

lemma gate_ok_settle_call: "gate_ok s \<Longrightarrow> gate_ok (settle_call c k r s)"
  by (auto simp: settle_call_def gate_ok_def navCount_def split: if_splits)

lemma fired_settle_call: "autoNextFired s \<Longrightarrow> autoNextFired (settle_call c k r s)"
  by (simp add: settle_call_def)

lemma gate_ok_step: "gate_ok s \<Longrightarrow> gate_ok (step c e s)"
  by (cases e)
    (simp_all add: gate_ok_handleRowClick gate_ok_handleNewCheckbox gate_ok_handleNext
      gate_ok_fire_timer gate_ok_settle_call handleRowKeydown_def
      gate_ok_cong [of "set_criterion c n v s" s for n v]
      gate_ok_cong [of "s\<lparr>availableActions := a\<rparr>" s for a])

lemma fired_step: "autoNextFired s \<Longrightarrow> autoNextFired (step c e s)"
  by (cases e)
    (simp_all add: fired_handleRowClick fired_handleNewCheckbox fired_handleNext
      fired_fire_timer fired_settle_call handleRowKeydown_def)

lemma gate_ok_run: "gate_ok s \<Longrightarrow> gate_ok (run c evs s)"
  by (induction evs arbitrary: s) (simp_all add: gate_ok_step)

lemma fired_run: "autoNextFired s \<Longrightarrow> autoNextFired (run c evs s)"
  by (induction evs arbitrary: s) (simp_all add: fired_step)

lemma gate_ok_init: "gate_ok init"
  by (simp add: gate_ok_def navCount_def init_def)

lemma tryNext_funpow:
  "autoNextFired (tryNext s) \<Longrightarrow> (tryNext ^^ Suc n) s = tryNext s"
  by (induction n) (simp_all add: tryNext_fired)

subsection \<open>The rows a settled call leaves\<close>

lemma fetch_try_total: "\<exists>s'. fetch_try c resp s = Inr s'"
proof -
  obtain xs where x: "extractArray resp = Inr (JArr xs)"
    using extractArray_returns_array by blast
  obtain m where m: "response_message resp = Inr m"
    using response_message_total by blast
  show ?thesis by (simp add: fetch_try_def x m Let_def)
qed

lemma rows_fetch_resume: "rows (fetch_resume c r s) = matches_of r"
proof (cases r)
  case Rejected
  then show ?thesis by (simp add: fetch_resume_def Let_def)
next
  case (Resolved resp)
  obtain s' where s': "fetch_try c resp s = Inr s'" using fetch_try_total by blast
  from fetch_try_frame(6) [OF s'] show ?thesis
    by (simp add: Resolved fetch_resume_def Let_def s')
qed

lemma matches_of_spec:
  "distinct_keys_response r \<Longrightarrow> (matches_of r = []) = spec_empty r"
  by (cases r) (simp_all add: extractArray_spec)

text \<open>
  Claim C8. For a response object with each property name once, \<^verbatim>\<open>_extractArray\<close> returns
  what the specification describes: a bare array itself; otherwise the first array under
  the keys \<^verbatim>\<open>results\<close>, \<^verbatim>\<open>records\<close>, \<^verbatim>\<open>data\<close>, \<^verbatim>\<open>items\<close> in that order; otherwise the
  first own property whose value is an array; otherwise the empty array. The rows kept
  when the call settles are that extraction, and \<^verbatim>\<open>hasRows\<close> is false exactly when the
  extraction has length zero or the call failed.
\<close>

theorem extraction_uniform:
  assumes "distinct_keys resp"
  shows "extractArray resp = Inr (JArr (spec_extract resp)) \<and>
         rows (fetch_resume c (Resolved resp) s) = spec_extract resp \<and>
         hasRows (fetch_resume c (Resolved resp) s) = (\<not> spec_empty (Resolved resp)) \<and>
         hasRows (fetch_resume c Rejected s) = (\<not> spec_empty Rejected)"
  using assms by (simp add: extractArray_spec rows_fetch_resume hasRows_def)

theorem extraction_uniform_witness:
  "distinct_keys (JObj [(''message'', JStr ''ok''), (''data'', JArr []), (''hits'', JArr [JNum 1]), (''records'', JArr [JNum 2, JNum 3])]) \<and>
   extractArray (JObj [(''message'', JStr ''ok''), (''data'', JArr []), (''hits'', JArr [JNum 1]), (''records'', JArr [JNum 2, JNum 3])])
     = Inr (JArr [JNum 2, JNum 3])"
proof -
  have h: "distinct_keys (JObj [(''message'', JStr ''ok''), (''data'', JArr []), (''hits'', JArr [JNum 1]), (''records'', JArr [JNum 2, JNum 3])])"
    by simp
  have e: "spec_extract (JObj [(''message'', JStr ''ok''), (''data'', JArr []), (''hits'', JArr [JNum 1]), (''records'', JArr [JNum 2, JNum 3])]) = [JNum 2, JNum 3]"
    by code_simp
  from h extraction_uniform [OF h, THEN conjunct1] show ?thesis
    unfolding e by (intro conjI)
qed

text \<open>
  Claim C9. \<^verbatim>\<open>_extractArray\<close> returns an array for every value and never throws; a value
  that is not an array and has no array among its property values yields the empty array.
\<close>

theorem extractArray_total:
  "(\<exists>xs. extractArray v = Inr (JArr xs)) \<and> (\<not> holds_array v \<longrightarrow> extractArray v = Inr (JArr []))"
  using extractArray_returns_array extractArray_nothing by blast

theorem extractArray_total_witness:
  "\<not> holds_array (JObj [(''message'', JStr ''none'')]) \<and>
   extractArray (JObj [(''message'', JStr ''none'')]) = Inr (JArr []) \<and>
   extractArray JNull = Inr (JArr []) \<and> extractArray JUndefined = Inr (JArr []) \<and>
   extractArray (JStr ''x'') = Inr (JArr [])"
  using extractArray_total [of "JObj [(''message'', JStr ''none'')]"]
        extractArray_total [of JNull] extractArray_total [of JUndefined]
        extractArray_total [of "JStr ''x''"]
  by simp

subsection \<open>Trimming\<close>

lemma trimmed_trim: "trimmed (trim t)"
proof (cases "trim t = []")
  case True
  then show ?thesis by (simp add: trimmed_def)
next
  case False
  let ?d = "dropWhile is_space t"
  let ?r = "dropWhile is_space (rev ?d)"
  from False have r: "?r \<noteq> []" by (simp add: trim_def)
  then have d: "?d \<noteq> []" by (cases ?d) simp_all
  have l: "\<not> is_space (last (trim t))"
    using r hd_dropWhile [of is_space "rev ?d"] by (simp add: trim_def last_rev)
  have "hd (trim t) = hd ?d"
  proof -
    have "rev ?d = takeWhile is_space (rev ?d) @ ?r" by simp
    then have "?d = rev ?r @ rev (takeWhile is_space (rev ?d))"
      by (metis rev_append rev_rev_ident)
    then have "hd ?d = hd (rev ?r)" using r by (metis hd_append2 rev_is_Nil_conv)
    then show ?thesis by (simp add: trim_def)
  qed
  with d have "\<not> is_space (hd (trim t))" using hd_dropWhile [of is_space t] by simp
  with l show ?thesis by (simp add: trimmed_def)
qed

lemma trim_Nil [simp]: "trim [] = []"
  by (simp add: trim_def)

lemma trim_blank: "blank t \<Longrightarrow> trim t = []"
proof -
  assume "blank t"
  then have "dropWhile is_space t = []"
    by (simp add: blank_def list_all_iff)
  then show ?thesis unfolding trim_def by (simp only: dropWhile.simps rev.simps)
qed

lemma trim_decomp:
  "\<exists>pre post. blank pre \<and> blank post \<and> t = pre @ trim t @ post"
proof -
  let ?d = "dropWhile is_space t"
  have a: "t = takeWhile is_space t @ ?d" by simp
  have "rev ?d = takeWhile is_space (rev ?d) @ dropWhile is_space (rev ?d)" by simp
  then have b: "?d = trim t @ rev (takeWhile is_space (rev ?d))"
    unfolding trim_def by (metis rev_append rev_rev_ident)
  have "blank (takeWhile is_space t)" "blank (rev (takeWhile is_space (rev ?d)))"
    by (auto simp: blank_def list_all_iff dest: set_takeWhileD)
  with a b show ?thesis by metis
qed

subsection \<open>Criteria\<close>

lemma criteria_handleRowClick [simp]: "criteria (handleRowClick rid s) = criteria s"
  by (simp add: handleRowClick_def Let_def split: option.splits)

lemma criteria_handleNewCheckbox [simp]: "criteria (handleNewCheckbox b s) = criteria s"
  by (simp add: handleNewCheckbox_def Let_def)

lemma criteria_handleNext [simp]: "criteria (handleNext s) = criteria s"
  by (simp add: handleNext_def)

lemma criteria_fire_timer [simp]: "criteria (fire_timer c i s) = criteria s"
  by (simp add: fire_timer_def Let_def split: option.splits callback.splits)

lemma criteria_settle_call [simp]: "criteria (settle_call c k r s) = criteria s"
  by (simp add: settle_call_def)

lemma criteria_set_criterion:
  "criteria (set_criterion c n v s) =
     (if n \<in> set (field_names c) then (criteria s)(n := normalize_input v) else criteria s)"
  by (simp add: set_criterion_def)

lemma trimmed_normalize_input: "trimmed (normalize_input v)"
  by (simp add: normalize_input_def trimmed_trim)

lemma all_trimmed_step: "all_trimmed s \<Longrightarrow> all_trimmed (step c e s)"
  by (cases e) (simp_all add: all_trimmed_def criteria_set_criterion trimmed_normalize_input handleRowKeydown_def)

lemma all_trimmed_run: "all_trimmed s \<Longrightarrow> all_trimmed (run c evs s)"
  by (induction evs arbitrary: s) (simp_all add: all_trimmed_step)

lemma all_trimmed_init: "all_trimmed init"
  by (simp add: all_trimmed_def init_def trimmed_def)

lemma set_criterion_no_input:
  assumes "\<not> hasAnyInput c (s\<lparr> criteria := (criteria s)(n := normalize_input v) \<rparr>)"
  shows "set_criterion c n v s =
     (if n \<in> set (field_names c) then s\<lparr> criteria := (criteria s)(n := normalize_input v) \<rparr> else s)"
  using assms by (simp add: set_criterion_def scheduleFetch_def)

text \<open>
  Claim C10. In any session, a criteria setter stores the trimmed text of its argument:
  the argument with white space removed at both ends, the empty string for \<^verbatim>\<open>null\<close> and
  \<^verbatim>\<open>undefined\<close>. Afterwards every criteria field is a trimmed string. A value whose
  text is white space only is stored as the empty string; when no other field has a value the
  component then has no input and the setter schedules nothing: it changes nothing but
  the stored field.
\<close>

theorem setter_normalizes:
  assumes name: "n \<in> set (field_names c)" and reach: "s = run c evs init"
  shows "criteria (set_criterion c n v s) n = trim (or_empty_toString v) \<and>
         (\<exists>pre post. blank pre \<and> blank post \<and>
            or_empty_toString v = pre @ criteria (set_criterion c n v s) n @ post) \<and>
         (v = FNull \<or> v = FUndefined \<longrightarrow> criteria (set_criterion c n v s) n = []) \<and>
         (\<forall>m. trimmed (criteria (set_criterion c n v s) m)) \<and>
         (blank (or_empty_toString v) \<longrightarrow>
            criteria (set_criterion c n v s) n = [] \<and>
            (others_empty c n s \<longrightarrow>
               \<not> hasAnyInput c (set_criterion c n v s) \<and>
               set_criterion c n v s = s\<lparr> criteria := (criteria s)(n := []) \<rparr>))"
proof -
  have st: "criteria (set_criterion c n v s) n = trim (or_empty_toString v)"
    using name by (simp add: criteria_set_criterion normalize_input_def)
  have dec: "\<exists>pre post. blank pre \<and> blank post \<and>
            or_empty_toString v = pre @ criteria (set_criterion c n v s) n @ post"
    unfolding st by (rule trim_decomp)
  have nul: "v = FNull \<or> v = FUndefined \<longrightarrow> criteria (set_criterion c n v s) n = []"
    unfolding st by auto
  have "all_trimmed (step c (SetCriterion n v) s)"
    unfolding reach by (intro all_trimmed_step all_trimmed_run all_trimmed_init)
  then have tr: "\<forall>m. trimmed (criteria (set_criterion c n v s) m)"
    by (simp add: all_trimmed_def)
  have bl: "criteria (set_criterion c n v s) n = [] \<and>
            (others_empty c n s \<longrightarrow>
               \<not> hasAnyInput c (set_criterion c n v s) \<and>
               set_criterion c n v s = s\<lparr> criteria := (criteria s)(n := []) \<rparr>)"
    if b: "blank (or_empty_toString v)"
  proof -
    have z: "normalize_input v = []" using b by (simp add: normalize_input_def trim_blank)
    have e: "criteria (set_criterion c n v s) n = []" using st z by (simp add: normalize_input_def)
    have "\<not> hasAnyInput c (s\<lparr> criteria := (criteria s)(n := normalize_input v) \<rparr>)"
      if "others_empty c n s"
      using that z by (auto simp: hasAnyInput_def others_empty_def list_ex_iff list_all_iff)
    then show ?thesis using e z name set_criterion_no_input [of c s n v]
      by (auto simp: hasAnyInput_cong [of "set_criterion c n v s"])
  qed
  from st dec nul tr bl show ?thesis by blast
qed


theorem setter_normalizes_witness:
  "''phone'' \<in> set (field_names Customer) \<and>
   criteria (set_criterion Customer ''phone'' (FString ''  010 1234 '') (run Customer [] init)) ''phone''
     = ''010 1234'' \<and>
   blank ''   '' \<and> others_empty Business ''kvkNumber'' (run Business [] init) \<and>
   set_criterion Business ''kvkNumber'' (FString ''   '') (run Business [] init)
     = (run Business [] init)\<lparr> criteria := (criteria (run Business [] init))(''kvkNumber'' := []) \<rparr>"
proof -
  have h: "''phone'' \<in> set (field_names Customer)" by simp
  have k: "''kvkNumber'' \<in> set (field_names Business)" by simp
  have e: "trim (or_empty_toString (FString ''  010 1234 '')) = ''010 1234''" by code_simp
  have b: "blank ''   ''" by code_simp
  then have b': "blank (or_empty_toString (FString ''   ''))" by simp
  have o: "others_empty Business ''kvkNumber'' (run Business [] init)"
    by (simp add: others_empty_def init_def)
  note t1 = setter_normalizes [OF h refl, of "FString ''  010 1234 ''" "[]", THEN conjunct1]
  note t2 = setter_normalizes [OF k refl, of "FString ''   ''" "[]",
      THEN conjunct2, THEN conjunct2, THEN conjunct2, THEN conjunct2, THEN mp, OF b',
      THEN conjunct2, THEN mp, OF o, THEN conjunct2]
  from h t1 b o t2 show ?thesis unfolding e by (intro conjI)
qed

subsection \<open>Timers\<close>

lemma find_by_id:
  "distinct (map timer_id ts) \<Longrightarrow> t \<in> set ts \<Longrightarrow> find (\<lambda>u. timer_id u = timer_id t) ts = Some t"
  by (induction ts) (auto simp: rev_image_eqI)

lemma timers_ok_filter:
  assumes "timers_ok s" and "timers t = filter P (timers s)"
    and "next_timer_id t = next_timer_id s" and "debounceId t = debounceId s"
  shows "timers_ok t"
  using assms by (auto simp: timers_ok_def list_all_iff distinct_map_filter)

lemma timers_ok_same:
  assumes "timers_ok s" and "timers t = timers s"
    and "next_timer_id t = next_timer_id s" and "debounceId t = debounceId s"
  shows "timers_ok t"
  using assms by (simp add: timers_ok_def)

lemma timers_ok_add:
  assumes "timers_ok s" and "timers t = timers s @ [Timer (next_timer_id s) rep d cb]"
    and "next_timer_id t = Suc (next_timer_id s)" and "debounceId t = debounceId s"
    and "\<forall>sig. cb \<noteq> FetchSig sig"
  shows "timers_ok t"
proof -
  have "\<not> is_fetch_timer (Timer (next_timer_id s) rep d cb)"
    using assms(5) by (cases cb) simp_all
  with assms(1-4) show ?thesis
    by (auto simp: timers_ok_def list_all_iff)
qed

lemma timers_clearTimers:
  "timers (clearTimers s) = filter (\<lambda>t. \<not> live_handle (intervalId s) t \<and> \<not> live_handle (timeoutId s) t) (timers s)"
  by (simp add: clearTimers_eq)

lemma timers_ok_clearTimers: "timers_ok s \<Longrightarrow> timers_ok (clearTimers s)"
  by (rule timers_ok_filter [where P = "\<lambda>t. \<not> live_handle (intervalId s) t \<and> \<not> live_handle (timeoutId s) t"])
     (simp_all add: timers_clearTimers)

lemma timers_ok_clear_timer: "timers_ok s \<Longrightarrow> timers_ok (clear_timer i s)"
  by (rule timers_ok_filter [where P = "\<lambda>t. timer_id t \<noteq> i"]) simp_all

lemma timers_ok_tick: "timers_ok s \<Longrightarrow> timers_ok (tick s)"
  by (rule timers_ok_same [of s]) simp_all

lemma timers_ok_tryNext: "timers_ok s \<Longrightarrow> timers_ok (tryNext s)"
  using timers_ok_clearTimers [of s]
  by (auto simp: tryNext_eq elim: timers_ok_same)

lemma timers_ok_fetch: "timers_ok s \<Longrightarrow> timers_ok (fetch c sig s)"
proof -
  assume a: "timers_ok s"
  have "timers_ok (s\<lparr> fetchInFlight := True, loading := True \<rparr>)"
    by (rule timers_ok_same [OF a]) simp_all
  then have "timers_ok (clearTimers (s\<lparr> fetchInFlight := True, loading := True \<rparr>))"
    by (rule timers_ok_clearTimers)
  then have "timers_ok ((clearTimers (s\<lparr> fetchInFlight := True, loading := True \<rparr>))
      \<lparr> calls := cs, outstanding := os \<rparr>)" for cs os
    by (rule timers_ok_same) simp_all
  with a show ?thesis by (simp add: fetch_def Let_def)
qed

lemma timers_ok_refetch: "timers_ok s \<Longrightarrow> timers_ok (refetch c s)"
proof -
  assume a: "timers_ok s"
  have "timers_ok (s\<lparr> needsRefetch := False, pendingSig := [], fetchInFlight := False \<rparr>)"
    by (rule timers_ok_same [OF a]) simp_all
  then show ?thesis unfolding refetch_def Let_def by (rule timers_ok_fetch)
qed

lemma startCountdown_started:
  assumes "hasCompletedFetchWithInputs s" and "\<not> needsRefetch s" and "canNext s"
  shows "startCountdownAndAutoNext k s =
     (clearTimers s)\<lparr> secondsRemaining := k,
        timers := timers (clearTimers s) @
          [Timer (next_timer_id s) True 1000 TickSecond,
           Timer (Suc (next_timer_id s)) False (k * 1000) AutoNext],
        next_timer_id := Suc (Suc (next_timer_id s)),
        intervalId := Some (next_timer_id s), timeoutId := Some (Suc (next_timer_id s)) \<rparr>"
  using assms by (simp add: startCountdownAndAutoNext_def Let_def set_timer_def)

lemma startCountdown_not_started:
  assumes "\<not> hasCompletedFetchWithInputs s \<or> needsRefetch s \<or> \<not> canNext s"
  shows "startCountdownAndAutoNext k s = s \<or> startCountdownAndAutoNext k s = clearTimers s"
  using assms by (auto simp: startCountdownAndAutoNext_def Let_def)

lemma timers_ok_startCountdown: "timers_ok s \<Longrightarrow> timers_ok (startCountdownAndAutoNext k s)"
proof (cases "hasCompletedFetchWithInputs s \<and> \<not> needsRefetch s \<and> canNext s")
  case True
  assume a: "timers_ok s"
  let ?s1 = "clearTimers s"
  let ?s2 = "?s1\<lparr> secondsRemaining := k,
      timers := timers ?s1 @ [Timer (next_timer_id ?s1) True 1000 TickSecond],
      next_timer_id := Suc (next_timer_id ?s1) \<rparr>"
  have 1: "timers_ok ?s1" using a by (rule timers_ok_clearTimers)
  have 2: "timers_ok ?s2"
    by (rule timers_ok_add [OF 1, where rep = True and d = 1000 and cb = TickSecond]) simp_all
  have "timers_ok (startCountdownAndAutoNext k s)"
    by (rule timers_ok_add [OF 2, where rep = False and d = "k * 1000" and cb = AutoNext])
       (simp_all add: startCountdown_started True)
  then show ?thesis .
next
  case False
  assume a: "timers_ok s"
  with False startCountdown_not_started [of s k] timers_ok_clearTimers [OF a]
  show ?thesis by auto
qed

lemma timers_ok_fetch_catch: "timers_ok s \<Longrightarrow> timers_ok (fetch_catch c s)"
proof -
  assume a: "timers_ok s"
  have "timers_ok (s\<lparr> rows := [], message := search_error_message c,
                  hasCompletedFetchWithInputs := True, loading := False \<rparr>)"
    by (rule timers_ok_same [OF a]) simp_all
  then show ?thesis
    by (simp add: fetch_catch_def Let_def timers_ok_refetch timers_ok_startCountdown)
qed

lemma timers_ok_fetch_try:
  assumes "timers_ok s" and "fetch_try c resp s = Inr s'"
  shows "timers_ok s'"
proof -
  from assms(2) obtain results msg where
    s': "s' = (let s1 = s\<lparr> rows := (case results of JArr xs \<Rightarrow> xs | _ \<Rightarrow> []), message := msg,
                     hasCompletedFetchWithInputs := True, loading := False \<rparr>
        in (if hasRows s1 then clearTimers s1
                else if needsRefetch s1 then refetch c s1
                else startCountdownAndAutoNext 5 s1))"
    unfolding fetch_try_def
    by (cases "extractArray resp"; cases "response_message resp") (auto simp: Let_def)
  have "timers_ok (s\<lparr> rows := rs, message := msg,
                     hasCompletedFetchWithInputs := True, loading := False \<rparr>)" for rs
    by (rule timers_ok_same [OF assms(1)]) simp_all
  then show ?thesis unfolding s' Let_def
    by (simp add: timers_ok_clearTimers timers_ok_refetch timers_ok_startCountdown)
qed

lemma timers_ok_fetch_resume: "timers_ok s \<Longrightarrow> timers_ok (fetch_resume c r s)"
proof -
  assume a: "timers_ok s"
  have f: "timers_ok t \<Longrightarrow> timers_ok (t\<lparr> fetchInFlight := False \<rparr>)" for t
    by (erule timers_ok_same) simp_all
  show ?thesis
  proof (cases r)
    case Rejected
    then show ?thesis
      by (simp add: fetch_resume_def Let_def f [OF timers_ok_fetch_catch [OF a]])
  next
    case (Resolved resp)
    show ?thesis
    proof (cases "fetch_try c resp s")
      case (Inl e)
      with Resolved show ?thesis
        by (simp add: fetch_resume_def Let_def f [OF timers_ok_fetch_catch [OF a]])
    next
      case (Inr s')
      with Resolved show ?thesis
        by (simp add: fetch_resume_def Let_def f [OF timers_ok_fetch_try [OF a Inr]])
    qed
  qed
qed

lemma timers_ok_settle_call: "timers_ok s \<Longrightarrow> timers_ok (settle_call c k r s)"
proof -
  assume a: "timers_ok s"
  have "timers_ok (s\<lparr> outstanding := os \<rparr>)" for os
    by (rule timers_ok_same [OF a]) simp_all
  with a show ?thesis by (simp add: settle_call_def timers_ok_fetch_resume)
qed

lemma timers_ok_fire_timer: "timers_ok s \<Longrightarrow> timers_ok (fire_timer c i s)"
  by (auto simp: fire_timer_def Let_def timers_ok_clear_timer timers_ok_fetch timers_ok_tick
      timers_ok_tryNext split: option.splits callback.splits)

lemma timers_ok_handleRowClick: "timers_ok s \<Longrightarrow> timers_ok (handleRowClick rid s)"
proof -
  assume a: "timers_ok s"
  have "timers_ok (s\<lparr> selectedExisting := True, selectedAccountId := i, dispatched := d \<rparr>)" for i d
    by (rule timers_ok_same [OF a]) simp_all
  with a show ?thesis
    by (auto simp: handleRowClick_def Let_def split: option.splits
        intro!: timers_ok_tryNext timers_ok_clearTimers)
qed

lemma timers_ok_handleNewCheckbox: "timers_ok s \<Longrightarrow> timers_ok (handleNewCheckbox b s)"
  by (auto simp: handleNewCheckbox_def Let_def elim!: timers_ok_same)

lemma timers_ok_handleNext: "timers_ok s \<Longrightarrow> timers_ok (handleNext s)"
  by (simp add: handleNext_def timers_ok_tryNext timers_ok_clearTimers)

subsection \<open>Debouncing\<close>

lemma scheduleFetch_idle:
  assumes "hasAnyInput c s" and "\<not> fetchInFlight s"
  shows "scheduleFetch c d s =
     s\<lparr> timers := filter (\<lambda>t. \<not> live_handle (debounceId s) t) (timers s) @
                    [Timer (next_timer_id s) False d (FetchSig (signature c s))],
        next_timer_id := Suc (next_timer_id s),
        debounceId := Some (next_timer_id s) \<rparr>"
  using assms
  by (simp add: scheduleFetch_def Let_def set_timer_def clear_if_set_eq
      signature_cong [of "s\<lparr>timers := ts\<rparr>" s for ts])

lemma scheduleFetch_busy:
  assumes "hasAnyInput c s" and "fetchInFlight s"
  shows "scheduleFetch c d s = s\<lparr> needsRefetch := True, pendingSig := signature c s \<rparr>"
  using assms by (simp add: scheduleFetch_def)

lemma scheduleFetch_no_input: "\<not> hasAnyInput c s \<Longrightarrow> scheduleFetch c d s = s"
  by (simp add: scheduleFetch_def)

lemma no_fetch_timer_after_clear:
  assumes "timers_ok s"
  shows "filter is_fetch_timer (filter (\<lambda>t. \<not> live_handle (debounceId s) t) (timers s)) = []"
  using assms by (auto simp: timers_ok_def list_all_iff live_handle_def filter_empty_conv)

lemma debounce_timers_scheduleFetch:
  assumes "timers_ok s" and "hasAnyInput c s" and "\<not> fetchInFlight s"
  shows "debounce_timers (scheduleFetch c d s) =
           [Timer (next_timer_id s) False d (FetchSig (signature c s))]"
  using no_fetch_timer_after_clear [OF assms(1)]
  by (simp add: scheduleFetch_idle [OF assms(2,3)] debounce_timers_def)

lemma timers_ok_scheduleFetch: "timers_ok s \<Longrightarrow> timers_ok (scheduleFetch c d s)"
proof -
  assume a: "timers_ok s"
  consider "\<not> hasAnyInput c s" | "hasAnyInput c s" "fetchInFlight s"
    | "hasAnyInput c s" "\<not> fetchInFlight s" by blast
  then show ?thesis
  proof cases
    case 1
    with a show ?thesis by (simp add: scheduleFetch_no_input)
  next
    case 2
    have "timers_ok (s\<lparr> needsRefetch := True, pendingSig := signature c s \<rparr>)"
      by (rule timers_ok_same [OF a]) simp_all
    with 2 show ?thesis by (simp add: scheduleFetch_busy)
  next
    case 3
    have n: "\<not> is_fetch_timer t" if "t \<in> set (timers s)" "\<not> live_handle (debounceId s) t" for t
      using a that by (auto simp: timers_ok_def list_all_iff live_handle_def)
    show ?thesis
      using a n unfolding scheduleFetch_idle [OF 3]
      by (auto simp: timers_ok_def list_all_iff distinct_map_filter)
  qed
qed

lemma timers_ok_set_criterion: "timers_ok s \<Longrightarrow> timers_ok (set_criterion c n v s)"
proof -
  assume a: "timers_ok s"
  have "timers_ok (s\<lparr> criteria := f \<rparr>)" for f
    by (rule timers_ok_same [OF a]) simp_all
  with a show ?thesis by (simp add: set_criterion_def timers_ok_scheduleFetch)
qed

lemma timers_ok_step: "timers_ok s \<Longrightarrow> timers_ok (step c e s)"
proof (cases e)
  case (SetAvailableActions a)
  assume "timers_ok s"
  then have "timers_ok (s\<lparr> availableActions := a \<rparr>)" by (rule timers_ok_same) simp_all
  with SetAvailableActions show ?thesis by simp
qed (simp_all add: timers_ok_set_criterion timers_ok_fire_timer timers_ok_settle_call
      timers_ok_handleRowClick timers_ok_handleNewCheckbox timers_ok_handleNext handleRowKeydown_def)

lemma timers_ok_run: "timers_ok s \<Longrightarrow> timers_ok (run c evs s)"
  by (induction evs arbitrary: s) (simp_all add: timers_ok_step)

lemma timers_ok_init: "timers_ok init"
  by (simp add: timers_ok_def init_def)

subsection \<open>The in-flight flag\<close>

lemma inflight_ok_same:
  "inflight_ok s \<Longrightarrow> fetchInFlight t = fetchInFlight s \<Longrightarrow> outstanding t = outstanding s \<Longrightarrow> inflight_ok t"
  by (simp add: inflight_ok_def)

lemma inflight_ok_fetch: "inflight_ok s \<Longrightarrow> inflight_ok (fetch c sig s)"
  by (simp add: inflight_ok_def fetch_def Let_def)

lemma inflight_ok_step: "inflight_ok s \<Longrightarrow> inflight_ok (step c e s)"
proof (cases e)
  case (TimerFires i)
  assume a: "inflight_ok s"
  have b: "inflight_ok (clear_timer i s)" by (rule inflight_ok_same [OF a]) simp_all
  have "inflight_ok (fire_timer c i s)"
    using a b
    by (auto simp: fire_timer_def Let_def inflight_ok_fetch split: option.splits callback.splits
        elim: inflight_ok_same)
  with TimerFires show ?thesis by simp
next
  case (CallSettles k r)
  assume "inflight_ok s"
  then show ?thesis unfolding CallSettles by (simp add: settle_call_def inflight_ok_def)
next
  case (RowClick rid)
  assume "inflight_ok s"
  then show ?thesis unfolding RowClick
    by (auto simp: handleRowClick_def Let_def split: option.splits elim!: inflight_ok_same)
next
  case (RowKeydown key rid)
  assume "inflight_ok s"
  then show ?thesis unfolding RowKeydown
    by (auto simp: handleRowKeydown_def handleRowClick_def Let_def split: option.splits elim!: inflight_ok_same)
next
  case (NewCheckbox b)
  assume "inflight_ok s"
  then show ?thesis unfolding NewCheckbox
    by (auto simp: handleNewCheckbox_def Let_def elim!: inflight_ok_same)
next
  case NextClick
  assume "inflight_ok s"
  then show ?thesis unfolding NextClick
    by (auto simp: handleNext_def elim!: inflight_ok_same)
qed (auto elim!: inflight_ok_same)

lemma inflight_ok_run: "inflight_ok s \<Longrightarrow> inflight_ok (run c evs s)"
  by (induction evs arbitrary: s) (simp_all add: inflight_ok_step)

lemma inflight_ok_init: "inflight_ok init"
  by (simp add: inflight_ok_def init_def)


subsection \<open>Exactly one advance signal\<close>

lemma once_after_tryNext:
  assumes g: "gate_ok t" and permit: "canNext t"
  shows "navCount (run c evs' (tryNext t)) = 1"
proof -
  from tryNext_emits [OF g permit] have fired: "autoNextFired (tryNext t)" by simp
  have f: "autoNextFired (run c evs' (tryNext t))" by (rule fired_run [OF fired])
  have "gate_ok (run c evs' (tryNext t))" by (rule gate_ok_run [OF gate_ok_tryNext [OF g]])
  with f show ?thesis by (simp add: gate_ok_def)
qed

lemma handleRowClick_tryNext:
  assumes "rid \<noteq> []" and "gate_ok s" and "canNext s"
  shows "\<exists>t. handleRowClick (Some rid) s = tryNext t \<and> gate_ok t \<and> canNext t"
proof -
  let ?t = "clearTimers (s\<lparr> selectedExisting := True, selectedAccountId := rid,
      dispatched := dispatched s @
        [FlowAttributeChange ''selectedExisting'' (JBool True),
         FlowAttributeChange ''selectedAccountId'' (JStr rid)] \<rparr>)"
  have 1: "handleRowClick (Some rid) s = tryNext ?t"
    using assms(1) by (simp add: handleRowClick_def Let_def)
  have 2: "gate_ok ?t" using assms(2) by (simp add: gate_ok_def navCount_def)
  have 3: "canNext ?t" using assms(3) by (simp add: canNext_def)
  from 1 2 3 show ?thesis by blast
qed

lemma handleNext_tryNext:
  assumes "newChecked s" and "gate_ok s" and "canNext s"
  shows "\<exists>t. handleNext s = tryNext t \<and> gate_ok t \<and> canNext t"
proof -
  have 1: "handleNext s = tryNext (clearTimers s)"
    using assms(1) by (simp add: handleNext_def isCreateBtnDisabled_def)
  have 2: "gate_ok (clearTimers s)" using assms(2) by (simp add: gate_ok_def navCount_def)
  from 1 2 assms(3) show ?thesis by auto
qed

lemma expiry_tryNext:
  assumes "Timer i rep d AutoNext \<in> set (timers s)" and "timers_ok s"
    and "gate_ok s" and "canNext s"
  shows "\<exists>t. fire_timer c i s = tryNext t \<and> gate_ok t \<and> canNext t"
proof -
  from assms(2) have "distinct (map timer_id (timers s))" by (simp add: timers_ok_def)
  from find_by_id [OF this assms(1)]
  have f: "find (\<lambda>u. timer_id u = i) (timers s) = Some (Timer i rep d AutoNext)" by simp
  let ?t = "if rep then s else clear_timer i s"
  have 1: "fire_timer c i s = tryNext ?t" by (simp add: fire_timer_def f)
  have 2: "gate_ok ?t" using assms(3) by (simp add: gate_ok_cong [of "clear_timer i s" s])
  have 3: "canNext ?t" using assms(4) by (simp add: canNext_def)
  from 1 2 3 show ?thesis by blast
qed

text \<open>
  Claim C2. In any session, whatever events came before, when the workflow permits NEXT
  any number \<open>N \<ge> 1\<close> of \<^verbatim>\<open>_tryNext\<close> invocations leaves exactly one advance signal
  dispatched in the whole session, and the invocations after the first change nothing.
  The same holds whichever call site makes the first invocation (the countdown expiry, a
  row selection, or the advance button with its checkbox ticked) and whatever events
  follow, further invocations from any call site included.
\<close>

theorem requestAdvance_exactly_once:
  assumes reach: "s = run c evs init" and permit: "canNext s" and n: "1 \<le> N"
  shows "navCount ((tryNext ^^ N) s) = 1 \<and> (tryNext ^^ N) s = tryNext s \<and>
         (\<forall>evs'. navCount (run c evs' (tryNext s)) = 1 \<and>
                  tryNext (run c evs' (tryNext s)) = run c evs' (tryNext s)) \<and>
         (\<forall>i rep d evs'. Timer i rep d AutoNext \<in> set (timers s) \<longrightarrow>
                  navCount (run c evs' (fire_timer c i s)) = 1) \<and>
         (\<forall>rid evs'. rid \<noteq> [] \<longrightarrow> navCount (run c evs' (handleRowClick (Some rid) s)) = 1) \<and>
         (\<forall>evs'. newChecked s \<longrightarrow> navCount (run c evs' (handleNext s)) = 1)"
proof -
  have g: "gate_ok s" unfolding reach by (rule gate_ok_run [OF gate_ok_init])
  have ok: "timers_ok s" unfolding reach by (rule timers_ok_run [OF timers_ok_init])
  from tryNext_emits [OF g permit]
  have fired: "autoNextFired (tryNext s)" and one: "navCount (tryNext s) = 1" by simp_all
  from n obtain k where N: "N = Suc k" by (cases N) simp_all
  have pow: "(tryNext ^^ N) s = tryNext s" unfolding N by (rule tryNext_funpow [OF fired])
  have later: "navCount (run c evs' (tryNext s)) = 1 \<and>
      tryNext (run c evs' (tryNext s)) = run c evs' (tryNext s)" for evs'
  proof -
    have f: "autoNextFired (run c evs' (tryNext s))" by (rule fired_run [OF fired])
    then show ?thesis by (simp add: once_after_tryNext [OF g permit] tryNext_fired)
  qed
  have expiry: "navCount (run c evs' (fire_timer c i s)) = 1"
    if "Timer i rep d AutoNext \<in> set (timers s)" for i rep d evs'
    using expiry_tryNext [OF that ok g permit, of c] once_after_tryNext [of _ c evs'] by auto
  have row: "navCount (run c evs' (handleRowClick (Some rid) s)) = 1" if "rid \<noteq> []" for rid evs'
    using handleRowClick_tryNext [OF that g permit] once_after_tryNext [of _ c evs'] by auto
  have button: "navCount (run c evs' (handleNext s)) = 1" if "newChecked s" for evs'
    using handleNext_tryNext [OF that g permit] once_after_tryNext [of _ c evs'] by auto
  from pow one later expiry row button show ?thesis by simp
qed

theorem requestAdvance_exactly_once_witness:
  "canNext (run Customer session_to_expiry init) \<and>
   navCount ((tryNext ^^ 3) (run Customer session_to_expiry init)) = 1 \<and>
   navCount (run Customer [RowClick (Some ''001''), NewCheckbox True, NextClick, TimerFires 3]
     (tryNext (run Customer session_to_expiry init))) = 1 \<and>
   Timer 3 False 5000 AutoNext \<in> set (timers (run Customer session_to_expiry init)) \<and>
   navCount (run Customer [RowClick (Some ''001''), NewCheckbox True, NextClick]
     (fire_timer Customer 3 (run Customer session_to_expiry init))) = 1 \<and>
   navCount (run Customer [TimerFires 3, NewCheckbox True, NextClick]
     (handleRowClick (Some ''001'') (run Customer session_to_expiry init))) = 1"
proof -
  have h: "canNext (run Customer session_to_expiry init)" by code_simp
  have n: "(1::nat) \<le> 3" by simp
  have m: "Timer 3 False 5000 AutoNext \<in> set (timers (run Customer session_to_expiry init))"
    by code_simp
  have r: "''001'' \<noteq> []" by simp
  note t = requestAdvance_exactly_once [OF refl h n]
  note t3 = t [THEN conjunct2, THEN conjunct2]
  note t4 = t3 [THEN conjunct2]
  note t5 = t4 [THEN conjunct2]
  from h t [THEN conjunct1] t3 [THEN conjunct1, THEN spec, THEN conjunct1] m
    t4 [THEN conjunct1, THEN spec, THEN spec, THEN spec, THEN spec, THEN mp, OF m]
    t5 [THEN conjunct1, THEN spec, THEN spec, THEN mp, OF r]
  show ?thesis by (intro conjI)
qed

subsection \<open>A burst of input\<close>

lemma fetch_idle:
  "\<not> fetchInFlight s \<Longrightarrow>
   fetch c sig s = (clearTimers s)\<lparr> fetchInFlight := True, loading := True,
       calls := calls s @ [params_of c s], outstanding := outstanding s @ [params_of c s] \<rparr>"
  by (simp add: fetch_def Let_def clearTimers_eq params_of_def)

lemma set_criterion_debounce:
  assumes ok: "timers_ok s" and idle: "\<not> fetchInFlight s" and name: "n \<in> set (field_names c)"
    and inp: "hasAnyInput c (set_criterion c n v s)"
  shows "debounce_timers (set_criterion c n v s) =
           [Timer (next_timer_id s) False 100 (FetchSig (signature c (set_criterion c n v s)))]"
proof -
  let ?s0 = "s\<lparr> criteria := (criteria s)(n := normalize_input v) \<rparr>"
  have eq: "set_criterion c n v s = scheduleFetch c 100 ?s0"
    using name by (simp add: set_criterion_def)
  have ok0: "timers_ok ?s0" by (rule timers_ok_same [OF ok]) simp_all
  have inp0: "hasAnyInput c ?s0"
    using inp unfolding eq by (simp add: hasAnyInput_cong [of "scheduleFetch c 100 ?s0" ?s0])
  have idle0: "\<not> fetchInFlight ?s0" using idle by simp
  have sg: "signature c (scheduleFetch c 100 ?s0) = signature c ?s0"
    by (rule signature_cong) simp
  show ?thesis
    unfolding eq sg using debounce_timers_scheduleFetch [OF ok0 inp0 idle0, of 100] by simp
qed

lemma next_timer_id_set_criterion: "next_timer_id s \<le> next_timer_id (set_criterion c n v s)"
  by (simp add: set_criterion_def scheduleFetch_def Let_def set_timer_def clear_if_set_eq)

lemma burst_debounce:
  "burst \<noteq> [] \<Longrightarrow> timers_ok s \<Longrightarrow> \<not> fetchInFlight s \<Longrightarrow> input_throughout c burst s \<Longrightarrow>
   (\<exists>i. next_timer_id s \<le> i \<and>
          debounce_timers (run c (burst_events burst) s) =
            [Timer i False 100 (FetchSig (signature c (run c (burst_events burst) s)))]) \<and>
   calls (run c (burst_events burst) s) = calls s \<and>
   \<not> fetchInFlight (run c (burst_events burst) s) \<and>
   timers_ok (run c (burst_events burst) s)"
proof (induction burst arbitrary: s)
  case Nil
  then show ?case by simp
next
  case (Cons nv rest)
  let ?s1 = "set_criterion c (fst nv) (snd nv) s"
  from Cons.prems have ok1: "timers_ok ?s1" and idle1: "\<not> fetchInFlight ?s1"
    by (simp_all add: timers_ok_set_criterion)
  from Cons.prems have name: "fst nv \<in> set (field_names c)" and inp: "hasAnyInput c ?s1"
    and rest: "input_throughout c rest ?s1" by simp_all
  show ?case
  proof (cases "rest = []")
    case True
    with set_criterion_debounce [OF Cons.prems(2,3) name inp] ok1 idle1 show ?thesis by simp
  next
    case False
    from Cons.IH [OF False ok1 idle1 rest] obtain i where
      "next_timer_id ?s1 \<le> i" and
      "debounce_timers (run c (burst_events rest) ?s1) =
          [Timer i False 100 (FetchSig (signature c (run c (burst_events rest) ?s1)))]" and
      "calls (run c (burst_events rest) ?s1) = calls ?s1" and
      "\<not> fetchInFlight (run c (burst_events rest) ?s1)" and
      "timers_ok (run c (burst_events rest) ?s1)"
      by blast
    with next_timer_id_set_criterion [of s c "fst nv" "snd nv"] show ?thesis
      by (auto intro!: exI [of _ i])
  qed
qed

lemma fire_debounce:
  assumes ok: "timers_ok s" and one: "debounce_timers s = [Timer i False d (FetchSig sig)]"
    and idle: "\<not> fetchInFlight s"
  shows "calls (fire_timer c i s) = calls s @ [params_of c s]"
    and "outstanding (fire_timer c i s) = outstanding s @ [params_of c s]"
    and "debounce_timers (fire_timer c i s) = []"
proof -
  let ?t = "Timer i False d (FetchSig sig)"
  have "?t \<in> set (debounce_timers s)" by (simp add: one)
  then have mem: "?t \<in> set (timers s)" by (simp add: debounce_timers_def)
  from ok have "distinct (map timer_id (timers s))" by (simp add: timers_ok_def)
  from find_by_id [OF this mem] have f: "find (\<lambda>u. timer_id u = i) (timers s) = Some ?t" by simp
  have fire: "fire_timer c i s = fetch c sig (clear_timer i s)"
    by (simp add: fire_timer_def f)
  have idle': "\<not> fetchInFlight (clear_timer i s)" using idle by simp
  have p: "params_of c (clear_timer i s) = params_of c s" by (rule params_of_cong) simp
  show "calls (fire_timer c i s) = calls s @ [params_of c s]"
    unfolding fire fetch_idle [OF idle'] p by simp
  show "outstanding (fire_timer c i s) = outstanding s @ [params_of c s]"
    unfolding fire fetch_idle [OF idle'] p by simp
  have only: "timer_id u = i" if "u \<in> set (timers s)" "is_fetch_timer u" for u
  proof -
    from that have "u \<in> set (debounce_timers s)" by (simp add: debounce_timers_def)
    then show ?thesis by (simp add: one)
  qed
  show "debounce_timers (fire_timer c i s) = []"
    unfolding fire fetch_idle [OF idle']
    by (auto simp: debounce_timers_def clearTimers_eq filter_empty_conv dest: only)
qed

text \<open>
  Claim C3, amended. In any session, with no Apex call unsettled, take a burst of setter
  calls each of which leaves at least one criteria field non-empty. After the burst one
  debounce timer is live: a timer created during the burst (every earlier one has been
  cancelled), with delay 100 ms, carrying the signature of the fields as the last call
  left them. The burst itself issues no call, and when that timer fires exactly one Apex
  call is issued, with the field values as the last call left them, and no debounce timer
  remains.
\<close>

theorem burst_single_dispatch:
  assumes reach: "s = run c evs init" and idle: "outstanding s = []"
    and ne: "burst \<noteq> []" and inp: "input_throughout c burst s"
  shows "\<exists>i. next_timer_id s \<le> i \<and>
           debounce_timers (run c (burst_events burst) s) =
             [Timer i False 100 (FetchSig (signature c (run c (burst_events burst) s)))] \<and>
           calls (run c (burst_events burst) s) = calls s \<and>
           calls (fire_timer c i (run c (burst_events burst) s)) =
             calls s @ [params_of c (run c (burst_events burst) s)] \<and>
           debounce_timers (fire_timer c i (run c (burst_events burst) s)) = []"
proof -
  let ?s' = "run c (burst_events burst) s"
  have ok: "timers_ok s" unfolding reach by (rule timers_ok_run [OF timers_ok_init])
  have "inflight_ok s" unfolding reach by (rule inflight_ok_run [OF inflight_ok_init])
  with idle have nf: "\<not> fetchInFlight s" by (simp add: inflight_ok_def)
  from burst_debounce [OF ne ok nf inp] obtain i where i: "next_timer_id s \<le> i"
    and d: "debounce_timers ?s' = [Timer i False 100 (FetchSig (signature c ?s'))]"
    and cs: "calls ?s' = calls s" and nf': "\<not> fetchInFlight ?s'" and ok': "timers_ok ?s'"
    by blast
  note f = fire_debounce [OF ok' d nf']
  from i d cs f(1) f(3) show ?thesis by (auto intro!: exI [of _ i])
qed


theorem burst_single_dispatch_witness:
  "outstanding (run Customer [] init) = [] \<and>
   input_throughout Customer typing_burst (run Customer [] init) \<and>
   (\<exists>i. next_timer_id (run Customer [] init) \<le> i \<and>
      debounce_timers (run Customer (burst_events typing_burst) (run Customer [] init)) =
        [Timer i False 100 (FetchSig (signature Customer (run Customer (burst_events typing_burst) (run Customer [] init))))] \<and>
      calls (run Customer (burst_events typing_burst) (run Customer [] init)) = calls (run Customer [] init) \<and>
      calls (fire_timer Customer i (run Customer (burst_events typing_burst) (run Customer [] init))) =
        calls (run Customer [] init) @ [params_of Customer (run Customer (burst_events typing_burst) (run Customer [] init))] \<and>
      debounce_timers (fire_timer Customer i (run Customer (burst_events typing_burst) (run Customer [] init))) = [])"
proof -
  have idle: "outstanding (run Customer [] init) = []" by (simp add: init_def)
  have ne: "typing_burst \<noteq> []" by (simp add: typing_burst_def)
  have inp: "input_throughout Customer typing_burst (run Customer [] init)" by code_simp
  from idle inp burst_single_dispatch [OF refl idle ne inp] show ?thesis by (intro conjI)
qed

text \<open>
  Claim C3 as stated fails for a call that empties the last non-empty field: it neither
  cancels nor replaces the pending debounce timer. After the burst the live timer is still
  timer 1 of the first call, carrying the signature \<^verbatim>\<open>a||\<close>, while the signature of the
  last call is \<^verbatim>\<open>||\<close>.
\<close>

theorem burst_clearing_call_counterexample:
  "outstanding init = [] \<and>
   debounce_timers (run Customer (burst_events [(''email'', FString ''a'')]) init) =
     [Timer 1 False 100 (FetchSig ''a||'')] \<and>
   debounce_timers (run Customer (burst_events clearing_burst) init) =
     [Timer 1 False 100 (FetchSig ''a||'')] \<and>
   signature Customer (run Customer (burst_events clearing_burst) init) = ''||''"
  by code_simp

subsection \<open>The countdown\<close>

lemma fetch_resume_empty:
  assumes "matches_of r = []" and "\<not> needsRefetch s"
  shows "\<exists>msg. fetch_resume c r s =
     (startCountdownAndAutoNext 5 (s\<lparr> rows := [], message := msg,
         hasCompletedFetchWithInputs := True, loading := False \<rparr>))\<lparr> fetchInFlight := False \<rparr>"
proof (cases r)
  case Rejected
  with assms(2) show ?thesis
    by (auto simp: fetch_resume_def fetch_catch_def Let_def intro!: exI [of _ "search_error_message c"])
next
  case (Resolved resp)
  obtain xs where x: "extractArray resp = Inr (JArr xs)"
    using extractArray_returns_array by blast
  obtain m where m: "response_message resp = Inr m"
    using response_message_total by blast
  from assms(1) Resolved x have "xs = []" by simp
  with assms(2) show ?thesis
    by (auto simp: Resolved fetch_resume_def fetch_try_def x m Let_def hasRows_def intro!: exI [of _ m])
qed

lemma find_skip:
  "\<forall>t\<in>set ts. \<not> P t \<Longrightarrow> find P (ts @ us) = find P us"
  by (induction ts) simp_all

text \<open>
  Claim C6, amended. In any session, when an unsettled call settles with zero matches
  (a failed call included) while no refetch is pending, the rows are empty. If the
  workflow permits NEXT, \<^verbatim>\<open>secondsRemaining\<close> is 5 and two fresh timers are live: an
  interval of 1000 ms whose firing decrements \<^verbatim>\<open>secondsRemaining\<close> and which stays live,
  and a timeout of 5000 ms which is spent when it fires and then runs \<^verbatim>\<open>_tryNext\<close>. If
  the workflow does not permit NEXT, no timer is created and both handles are unset.
\<close>

theorem zero_matches_start_countdown:
  assumes reach: "s = run c evs init" and k: "k < length (outstanding s)"
    and zero: "matches_of r = []" and nopend: "\<not> needsRefetch s"
  shows "let s' = settle_call c k r s; n = next_timer_id s in
           rows s' = [] \<and>
           (canNext s \<longrightarrow>
              secondsRemaining s' = 5 \<and>
              intervalId s' = Some n \<and> timeoutId s' = Some (Suc n) \<and>
              timers s' = timers (clearTimers s) @
                [Timer n True 1000 TickSecond, Timer (Suc n) False 5000 AutoNext] \<and>
              secondsRemaining (fire_timer c n s') = 4 \<and>
              timers (fire_timer c n s') = timers s' \<and>
              fire_timer c (Suc n) s' = tryNext (clear_timer (Suc n) s')) \<and>
           (\<not> canNext s \<longrightarrow>
              intervalId s' = None \<and> timeoutId s' = None \<and>
              timers s' = timers (clearTimers s) \<and> next_timer_id s' = n)"
proof -
  let ?s0 = "s\<lparr> outstanding := take k (outstanding s) @ drop (Suc k) (outstanding s) \<rparr>"
  let ?n = "next_timer_id s"
  from fetch_resume_empty [OF zero, of ?s0 c] nopend obtain msg where
    fr: "fetch_resume c r ?s0 =
     (startCountdownAndAutoNext 5 (?s0\<lparr> rows := [], message := msg,
         hasCompletedFetchWithInputs := True, loading := False \<rparr>))\<lparr> fetchInFlight := False \<rparr>"
    by auto
  let ?s1 = "?s0\<lparr> rows := [], message := msg, hasCompletedFetchWithInputs := True, loading := False \<rparr>"
  let ?s' = "settle_call c k r s"
  have s': "?s' = (startCountdownAndAutoNext 5 ?s1)\<lparr> fetchInFlight := False \<rparr>"
    using k fr by (simp add: settle_call_def)
  have ts: "timers (clearTimers ?s1) = timers (clearTimers s)" by (simp add: clearTimers_eq)
  have r1: "rows ?s' = []" unfolding s' by simp
  have pos: "secondsRemaining ?s' = 5 \<and>
      intervalId ?s' = Some ?n \<and> timeoutId ?s' = Some (Suc ?n) \<and>
      timers ?s' = timers (clearTimers s) @
        [Timer ?n True 1000 TickSecond, Timer (Suc ?n) False 5000 AutoNext] \<and>
      secondsRemaining (fire_timer c ?n ?s') = 4 \<and>
      timers (fire_timer c ?n ?s') = timers ?s' \<and>
      fire_timer c (Suc ?n) ?s' = tryNext (clear_timer (Suc ?n) ?s')"
    if permit: "canNext s"
  proof -
    have c1: "canNext ?s1" using permit by (simp add: canNext_def)
    have sc: "startCountdownAndAutoNext 5 ?s1 =
       (clearTimers ?s1)\<lparr> secondsRemaining := 5,
          timers := timers (clearTimers ?s1) @
            [Timer ?n True 1000 TickSecond, Timer (Suc ?n) False (5 * 1000) AutoNext],
          next_timer_id := Suc (Suc ?n),
          intervalId := Some ?n, timeoutId := Some (Suc ?n) \<rparr>"
      using startCountdown_started [of ?s1 5] c1 nopend by simp
    have r2: "secondsRemaining ?s' = 5"
      and r3: "intervalId ?s' = Some ?n" and r4: "timeoutId ?s' = Some (Suc ?n)"
      unfolding s' sc by simp_all
    have r5: "timers ?s' = timers (clearTimers s) @
               [Timer ?n True 1000 TickSecond, Timer (Suc ?n) False 5000 AutoNext]"
      unfolding s' sc ts by simp
    have ok: "timers_ok (clearTimers s)"
      unfolding reach by (intro timers_ok_clearTimers timers_ok_run timers_ok_init)
    then have old: "\<forall>t\<in>set (timers (clearTimers s)). timer_id t < ?n"
      by (simp add: timers_ok_def list_all_iff)
    have f1: "find (\<lambda>t. timer_id t = ?n) (timers ?s') = Some (Timer ?n True 1000 TickSecond)"
      unfolding r5 using old by (subst find_skip) auto
    have f2: "find (\<lambda>t. timer_id t = Suc ?n) (timers ?s') = Some (Timer (Suc ?n) False 5000 AutoNext)"
      unfolding r5 using old by (subst find_skip) auto
    have r6: "secondsRemaining (fire_timer c ?n ?s') = 4"
      by (simp add: fire_timer_def f1 tick_def r2)
    have r7: "timers (fire_timer c ?n ?s') = timers ?s'"
      by (simp add: fire_timer_def f1)
    have r8: "fire_timer c (Suc ?n) ?s' = tryNext (clear_timer (Suc ?n) ?s')"
      by (simp add: fire_timer_def f2)
    from r2 r3 r4 r5 r6 r7 r8 show ?thesis by simp
  qed
  have neg: "intervalId ?s' = None \<and> timeoutId ?s' = None \<and>
      timers ?s' = timers (clearTimers s) \<and> next_timer_id ?s' = ?n"
    if deny: "\<not> canNext s"
  proof -
    have c1: "\<not> canNext ?s1" using deny by (simp add: canNext_def)
    have "startCountdownAndAutoNext 5 ?s1 = clearTimers ?s1"
      using c1 nopend by (simp add: startCountdownAndAutoNext_def Let_def)
    then show ?thesis unfolding s' using ts by simp
  qed
  from r1 pos neg show ?thesis by (simp add: Let_def)
qed

theorem zero_matches_start_countdown_witness:
  "0 < length (outstanding (run Customer session_awaiting init)) \<and>
   matches_of Rejected = [] \<and>
   \<not> needsRefetch (run Customer session_awaiting init) \<and>
   canNext (run Customer session_awaiting init) \<and>
   secondsRemaining (settle_call Customer 0 Rejected (run Customer session_awaiting init)) = 5 \<and>
   timers (settle_call Customer 0 Rejected (run Customer session_awaiting init)) =
     timers (clearTimers (run Customer session_awaiting init)) @
       [Timer (next_timer_id (run Customer session_awaiting init)) True 1000 TickSecond,
        Timer (Suc (next_timer_id (run Customer session_awaiting init))) False 5000 AutoNext]"
proof -
  have k: "0 < length (outstanding (run Customer session_awaiting init))" by code_simp
  have z: "matches_of Rejected = []" by simp
  have p: "\<not> needsRefetch (run Customer session_awaiting init)" by code_simp
  have c: "canNext (run Customer session_awaiting init)" by code_simp
  note t = zero_matches_start_countdown [OF refl k z p, unfolded Let_def,
      THEN conjunct2, THEN conjunct1, THEN mp, OF c]
  from k z p c t [THEN conjunct1] t [THEN conjunct2, THEN conjunct2, THEN conjunct2, THEN conjunct1]
  show ?thesis by (intro conjI)
qed

text \<open>
  Claim C6 as stated fails when NEXT is not among the available actions:
  \<^verbatim>\<open>_startCountdownAndAutoNext\<close> returns before setting any timer, so a call that settles
  with zero matches and no pending refetch starts no countdown.
\<close>

theorem countdown_without_next_counterexample:
  "0 < length (outstanding (run Customer session_no_next init)) \<and>
   matches_of (Resolved (JArr [])) = [] \<and>
   \<not> needsRefetch (run Customer session_no_next init) \<and>
   rows (settle_call Customer 0 (Resolved (JArr [])) (run Customer session_no_next init)) = [] \<and>
   timers (settle_call Customer 0 (Resolved (JArr [])) (run Customer session_no_next init)) = [] \<and>
   intervalId (settle_call Customer 0 (Resolved (JArr [])) (run Customer session_no_next init)) = None \<and>
   timeoutId (settle_call Customer 0 (Resolved (JArr [])) (run Customer session_no_next init)) = None"
  by code_simp

subsection \<open>Clearing the criteria\<close>

text \<open>
  Claim C4, amended. A setter call that leaves every criteria field empty schedules no
  dispatch (it creates no timer), records no pending refetch and issues no Apex call.
\<close>

theorem clearing_setter_schedules_nothing:
  assumes "n \<in> set (field_names c)" and "\<not> hasAnyInput c (set_criterion c n v s)"
  shows "next_timer_id (set_criterion c n v s) = next_timer_id s \<and>
         set (timers (set_criterion c n v s)) \<subseteq> set (timers s) \<and>
         needsRefetch (set_criterion c n v s) = needsRefetch s \<and>
         pendingSig (set_criterion c n v s) = pendingSig s \<and>
         calls (set_criterion c n v s) = calls s \<and>
         outstanding (set_criterion c n v s) = outstanding s"
proof -
  let ?s0 = "s\<lparr> criteria := (criteria s)(n := normalize_input v) \<rparr>"
  have eq: "set_criterion c n v s = scheduleFetch c 100 ?s0"
    using assms(1) by (simp add: set_criterion_def)
  have "\<not> hasAnyInput c ?s0"
    using assms(2) unfolding eq by (simp add: hasAnyInput_cong [of "scheduleFetch c 100 ?s0" ?s0])
  then have "set_criterion c n v s = ?s0" unfolding eq by (rule scheduleFetch_no_input)
  then show ?thesis by simp
qed

theorem clearing_setter_schedules_nothing_witness:
  "''email'' \<in> set (field_names Customer) \<and>
   \<not> hasAnyInput Customer (set_criterion Customer ''email'' (FString []) (run Customer session_awaiting init)) \<and>
   calls (set_criterion Customer ''email'' (FString []) (run Customer session_awaiting init))
     = calls (run Customer session_awaiting init) \<and>
   next_timer_id (set_criterion Customer ''email'' (FString []) (run Customer session_awaiting init))
     = next_timer_id (run Customer session_awaiting init)"
proof -
  have n: "''email'' \<in> set (field_names Customer)" by simp
  have h: "\<not> hasAnyInput Customer (set_criterion Customer ''email'' (FString []) (run Customer session_awaiting init))"
    by code_simp
  note t = clearing_setter_schedules_nothing [OF n h]
  from n h t [THEN conjunct2, THEN conjunct2, THEN conjunct2, THEN conjunct2, THEN conjunct1]
    t [THEN conjunct1]
  show ?thesis by (intro conjI)
qed

text \<open>
  Claim C4 as stated fails. After the only criterion is cleared, the debounce timer set
  when it was typed is still live, and when it fires an Apex call is issued with every
  parameter empty. Cleared during a countdown, the tick and expiry timers stay live and
  the handles stay set, and the expiry still dispatches the advance signal.
\<close>

theorem clearing_cancels_nothing_counterexample:
  "\<not> hasAnyInput Customer (run Customer session_typed_then_cleared init) \<and>
   timers (run Customer session_typed_then_cleared init) = [Timer 1 False 100 (FetchSig ''a||'')] \<and>
   calls (run Customer session_typed_then_cleared init) = [] \<and>
   calls (fire_timer Customer 1 (run Customer session_typed_then_cleared init)) =
     [[(''email'', []), (''phone'', []), (''mobile'', [])]] \<and>
   \<not> hasAnyInput Customer (run Customer session_counting_then_cleared init) \<and>
   timers (run Customer session_counting_then_cleared init) =
     [Timer 2 True 1000 TickSecond, Timer 3 False 5000 AutoNext] \<and>
   intervalId (run Customer session_counting_then_cleared init) = Some 2 \<and>
   timeoutId (run Customer session_counting_then_cleared init) = Some 3 \<and>
   navCount (fire_timer Customer 3 (run Customer session_counting_then_cleared init)) = 1"
  by code_simp

subsection \<open>The parameters of the Apex call\<close>

text \<open>
  Claim C7, amended. When \<^verbatim>\<open>_fetch(sig)\<close> runs with no call marked in flight, the Apex
  call is issued with the values the criteria fields hold at that moment, one parameter
  per field, whatever \<open>sig\<close> is; they are the values of \<open>sig\<close> when \<open>sig\<close> is still the
  signature of the fields.
\<close>

theorem fetch_reads_current_fields:
  assumes "\<not> fetchInFlight s"
  shows "calls (fetch c sig s) = calls s @ [params_of c s] \<and>
         map fst (params_of c s) = field_names c \<and>
         map snd (params_of c s) = map (criteria s) (field_names c) \<and>
         (sig = signature c s \<longrightarrow> join_str ''|'' (map snd (params_of c s)) = sig)"
proof -
  have v: "map snd (params_of c s) = map (criteria s) (field_names c)"
    by (simp add: params_of_def comp_def)
  have k: "map fst (params_of c s) = field_names c"
    by (simp add: params_of_def comp_def)
  from assms v k show ?thesis by (simp add: fetch_idle signature_def)
qed

theorem fetch_reads_current_fields_witness:
  "\<not> fetchInFlight (run Customer session_typed_then_cleared init) \<and>
   calls (fetch Customer ''a||'' (run Customer session_typed_then_cleared init)) =
     [[(''email'', []), (''phone'', []), (''mobile'', [])]]"
proof -
  have h: "\<not> fetchInFlight (run Customer session_typed_then_cleared init)" by code_simp
  have c: "calls (run Customer session_typed_then_cleared init) = []" by code_simp
  have p: "params_of Customer (run Customer session_typed_then_cleared init) =
     [(''email'', []), (''phone'', []), (''mobile'', [])]" by code_simp
  from h fetch_reads_current_fields [OF h, of Customer "''a||''", THEN conjunct1]
  show ?thesis unfolding c p by simp
qed

text \<open>
  Claim C7 as stated fails. The criterion is changed to \<^verbatim>\<open>b\<close> and then cleared while a
  call is awaited: the pending signature stays \<^verbatim>\<open>b||\<close>, and when the call settles the
  refetch dispatched with that signature issues a call with every parameter empty.
\<close>

theorem dispatch_ignores_signature_counterexample:
  "fetchInFlight (run Customer session_changed_then_cleared_in_flight init) \<and>
   needsRefetch (run Customer session_changed_then_cleared_in_flight init) \<and>
   pendingSig (run Customer session_changed_then_cleared_in_flight init) = ''b||'' \<and>
   calls (run Customer session_changed_then_cleared_in_flight init) =
     [[(''email'', ''a''), (''phone'', []), (''mobile'', [])]] \<and>
   calls (settle_call Customer 0 Rejected (run Customer session_changed_then_cleared_in_flight init)) =
     [[(''email'', ''a''), (''phone'', []), (''mobile'', [])],
      [(''email'', []), (''phone'', []), (''mobile'', [])]]"
  by code_simp

subsection \<open>Two defects of the refetch latch\<close>

lemma refetch_eq:
  "refetch c s = (clearTimers s)\<lparr> needsRefetch := False, pendingSig := [],
       fetchInFlight := True, loading := True,
       calls := calls s @ [params_of c s], outstanding := outstanding s @ [params_of c s] \<rparr>"
  by (simp add: refetch_def Let_def fetch_def clearTimers_eq params_of_def)

text \<open>
  What \<^verbatim>\<open>_fetch\<close> does once the call has settled, by the rows found and the latch.
\<close>

lemma fetch_resume_cases:
  "\<exists>msg. fetch_resume c r s =
     (let s1 = s\<lparr> rows := matches_of r, message := msg,
                   hasCompletedFetchWithInputs := True, loading := False \<rparr>
      in (if matches_of r \<noteq> [] then clearTimers s1
          else if needsRefetch s then refetch c s1
          else startCountdownAndAutoNext 5 s1)\<lparr> fetchInFlight := False \<rparr>)"
proof (cases r)
  case Rejected
  then show ?thesis
    by (auto simp: fetch_resume_def fetch_catch_def Let_def intro!: exI [of _ "search_error_message c"])
next
  case (Resolved resp)
  obtain xs where x: "extractArray resp = Inr (JArr xs)"
    using extractArray_returns_array by blast
  obtain m where m: "response_message resp = Inr m"
    using response_message_total by blast
  show ?thesis
    by (auto simp: Resolved fetch_resume_def fetch_try_def x m Let_def hasRows_def intro!: exI [of _ m])
qed

text \<open>
  With one or more matches the latch is not looked at: no call is issued and the pending
  signature stays.
\<close>

lemma settle_with_rows:
  assumes "k < length (outstanding s)" and "matches_of r \<noteq> []"
  shows "calls (settle_call c k r s) = calls s"
    and "needsRefetch (settle_call c k r s) = needsRefetch s"
    and "pendingSig (settle_call c k r s) = pendingSig s"
proof -
  let ?s0 = "s\<lparr> outstanding := take k (outstanding s) @ drop (Suc k) (outstanding s) \<rparr>"
  from fetch_resume_cases [of c r ?s0] assms(2) obtain msg where
    "fetch_resume c r ?s0 = (clearTimers (?s0\<lparr> rows := matches_of r, message := msg,
        hasCompletedFetchWithInputs := True, loading := False \<rparr>))\<lparr> fetchInFlight := False \<rparr>"
    by (auto simp: Let_def)
  with assms(1) show "calls (settle_call c k r s) = calls s"
    "needsRefetch (settle_call c k r s) = needsRefetch s"
    "pendingSig (settle_call c k r s) = pendingSig s"
    by (simp_all add: settle_call_def)
qed

text \<open>
  With no match and the latch set, the latch is cleared and one call is issued with the
  current field values; the call is unsettled but \<^verbatim>\<open>_fetchInFlight\<close> ends up reset.
\<close>

lemma settle_empty_pending:
  assumes "k < length (outstanding s)" and "matches_of r = []" and "needsRefetch s"
  shows "calls (settle_call c k r s) = calls s @ [params_of c s]"
    and "\<not> needsRefetch (settle_call c k r s)"
    and "pendingSig (settle_call c k r s) = []"
    and "length (outstanding (settle_call c k r s)) = length (outstanding s)"
    and "\<not> fetchInFlight (settle_call c k r s)"
proof -
  let ?s0 = "s\<lparr> outstanding := take k (outstanding s) @ drop (Suc k) (outstanding s) \<rparr>"
  from fetch_resume_cases [of c r ?s0] assms(2,3) obtain msg where
    fr: "fetch_resume c r ?s0 = (refetch c (?s0\<lparr> rows := [], message := msg,
        hasCompletedFetchWithInputs := True, loading := False \<rparr>))\<lparr> fetchInFlight := False \<rparr>"
    by (auto simp: Let_def)
  have p: "params_of c (?s0\<lparr> rows := [], message := msg,
        hasCompletedFetchWithInputs := True, loading := False \<rparr>) = params_of c s"
    by (rule params_of_cong) simp
  from assms(1) have s': "settle_call c k r s = (refetch c (?s0\<lparr> rows := [], message := msg,
        hasCompletedFetchWithInputs := True, loading := False \<rparr>))\<lparr> fetchInFlight := False \<rparr>"
    by (simp add: settle_call_def fr)
  show "calls (settle_call c k r s) = calls s @ [params_of c s]"
    unfolding s' refetch_eq p by simp
  show "\<not> needsRefetch (settle_call c k r s)" unfolding s' refetch_eq by simp
  show "pendingSig (settle_call c k r s) = []" unfolding s' refetch_eq by simp
  show "\<not> fetchInFlight (settle_call c k r s)" unfolding s' by simp
  from assms(1) show "length (outstanding (settle_call c k r s)) = length (outstanding s)"
    unfolding s' refetch_eq by simp
qed

text \<open>
  Claim C1 at a failing input. The criterion changes while a call is awaited, so a refetch
  is pending with signature \<^verbatim>\<open>b||\<close>. When the call settles with one match, no further call
  is issued and the pending signature is not cleared; had it settled with no match, the
  refetch would have been issued.
\<close>

theorem refetch_skipped_when_rows_found:
  "needsRefetch (run Customer session_changed_in_flight init) \<and>
   pendingSig (run Customer session_changed_in_flight init) = ''b||'' \<and>
   outstanding (run Customer session_changed_in_flight init) =
     [[(''email'', ''a''), (''phone'', []), (''mobile'', [])]] \<and>
   calls (settle_call Customer 0 (Resolved (JArr [JObj [(''Id'', JStr ''001'')]]))
           (run Customer session_changed_in_flight init)) =
     [[(''email'', ''a''), (''phone'', []), (''mobile'', [])]] \<and>
   outstanding (settle_call Customer 0 (Resolved (JArr [JObj [(''Id'', JStr ''001'')]]))
           (run Customer session_changed_in_flight init)) = [] \<and>
   needsRefetch (settle_call Customer 0 (Resolved (JArr [JObj [(''Id'', JStr ''001'')]]))
           (run Customer session_changed_in_flight init)) \<and>
   pendingSig (settle_call Customer 0 (Resolved (JArr [JObj [(''Id'', JStr ''001'')]]))
           (run Customer session_changed_in_flight init)) = ''b||'' \<and>
   calls (settle_call Customer 0 (Resolved (JArr []))
           (run Customer session_changed_in_flight init)) =
     [[(''email'', ''a''), (''phone'', []), (''mobile'', [])],
      [(''email'', ''b''), (''phone'', []), (''mobile'', [])]]"
  by code_simp

text \<open>
  Claim C5 at a failing input. After the refetch latch has started the second call, the
  \<^verbatim>\<open>finally\<close> block of the first \<^verbatim>\<open>_fetch\<close> resets \<^verbatim>\<open>_fetchInFlight\<close> while that call is
  unsettled; the next input change is debounced instead of latched, and when its timer
  fires a third call is issued: two calls are outstanding at once.
\<close>

theorem two_calls_outstanding:
  "outstanding (run Customer (take 4 session_overlap) init) =
     [[(''email'', ''b''), (''phone'', []), (''mobile'', [])]] \<and>
   \<not> fetchInFlight (run Customer (take 4 session_overlap) init) \<and>
   outstanding (run Customer session_overlap init) =
     [[(''email'', ''b''), (''phone'', []), (''mobile'', [])],
      [(''email'', ''c''), (''phone'', []), (''mobile'', [])]]"
  by code_simp

end
